theory Spec2Isabelle
  imports Complex_Main
begin

section \<open>Find-Object: the detection pipeline and its vocabulary\<close>

text \<open>
  A shallow embedding of \<^verbatim>\<open>src/FindObject.cpp\<close> and \<^verbatim>\<open>src/Vocabulary.cpp\<close>.

  \<^item> C++ \<^verbatim>\<open>int\<close> is modelled by \<^typ>\<open>int\<close>; where the 32-bit range matters
    (\<^verbatim>\<open>id + 1\<close> in \<^verbatim>\<open>addObject\<close>) the range is a stated hypothesis.
  \<^item> \<^verbatim>\<open>float\<close>, \<^verbatim>\<open>double\<close> and \<^verbatim>\<open>qreal\<close> are modelled by \<^typ>\<open>real\<close>: comparisons
    of finite values are exact, rounding of products is not modelled, NaN is excluded.
  \<^item> \<^verbatim>\<open>Q_ASSERT\<close> is compiled out. Two assertions of the sources name identifiers that
    are declared nowhere (\<^verbatim>\<open>index\<close> in \<^verbatim>\<open>SearchThread\<close>, \<^verbatim>\<open>newWords\<close> in
    \<^verbatim>\<open>Vocabulary::addWords\<close>), so the sources build only where the macro discards its
    argument. The condition of the assertion in \<^verbatim>\<open>Vocabulary::search\<close> is kept as a
    predicate.
  \<^item> OpenCV and Qt are outside the sources. \<^verbatim>\<open>cv::Mat\<close>, \<^verbatim>\<open>QMap\<close>, \<^verbatim>\<open>QMultiMap\<close> and
    \<^verbatim>\<open>std::multimap\<close> are modelled by their documented behaviour; the nearest-neighbour
    searches, the keypoint detector and the descriptor extractor are parameters.
\<close>

subsection \<open>Containers\<close>

text \<open>
  \<^verbatim>\<open>std::multimap::insert\<close> puts an element after the elements of equal key (the upper
  bound of the equal range). A map is the list of its pairs in iteration order.
\<close>

fun multimap_insert :: "'k::linorder \<times> 'v \<Rightarrow> ('k \<times> 'v) list \<Rightarrow> ('k \<times> 'v) list" where
  "multimap_insert p [] = [p]"
| "multimap_insert p (q # qs) =
     (if fst p < fst q then p # q # qs else q # multimap_insert p qs)"

text \<open>
  \<^verbatim>\<open>QMultiMap::insert\<close> puts an element before the elements of equal key: items that
  share a key are iterated from the most recently to the least recently inserted.
\<close>

fun qmultimap_insert :: "'k::linorder \<Rightarrow> 'v \<Rightarrow> ('k \<times> 'v) list \<Rightarrow> ('k \<times> 'v) list" where
  "qmultimap_insert k v [] = [(k, v)]"
| "qmultimap_insert k v (p # m) =
     (if k \<le> fst p then (k, v) # p # m else p # qmultimap_insert k v m)"

definition qmultimap_values :: "('k \<times> 'v) list \<Rightarrow> 'k \<Rightarrow> 'v list" where
  "qmultimap_values m k = map snd (filter (\<lambda>p. fst p = k) m)"

definition qmultimap_count :: "('k \<times> 'v) list \<Rightarrow> 'k \<Rightarrow> nat" where
  "qmultimap_count m k = length (qmultimap_values m k)"

definition qmultimap_count_pair :: "('k \<times> 'v) list \<Rightarrow> 'k \<Rightarrow> 'v \<Rightarrow> nat" where
  "qmultimap_count_pair m k v = length (filter (\<lambda>p. p = (k, v)) m)"

text \<open>\<^verbatim>\<open>QMultiMap::value(key)\<close>: the most recently inserted value, or a default-constructed one.\<close>

definition qmultimap_value :: "('k \<times> 'v) list \<Rightarrow> 'k \<Rightarrow> 'v \<Rightarrow> 'v" where
  "qmultimap_value m k dflt = (case qmultimap_values m k of [] \<Rightarrow> dflt | v # _ \<Rightarrow> v)"

definition uniqueKeys :: "('k \<times> 'v) list \<Rightarrow> 'k list" where
  "uniqueKeys m = remdups (map fst m)"

text \<open>\<^verbatim>\<open>QMap\<close>: one value per key, ascending keys; \<^verbatim>\<open>insert\<close> replaces the value of a present key.\<close>

fun qmap_insert :: "'k::linorder \<Rightarrow> 'v \<Rightarrow> ('k \<times> 'v) list \<Rightarrow> ('k \<times> 'v) list" where
  "qmap_insert k v [] = [(k, v)]"
| "qmap_insert k v (p # m) =
     (if k < fst p then (k, v) # p # m
      else if k = fst p then (k, v) # m
      else p # qmap_insert k v m)"

definition qmap_find :: "('k \<times> 'v) list \<Rightarrow> 'k \<Rightarrow> 'v option" where
  "qmap_find m k = map_of m k"

definition qmap_contains :: "('k \<times> 'v) list \<Rightarrow> 'k \<Rightarrow> bool" where
  "qmap_contains m k = (qmap_find m k \<noteq> None)"

definition qmap_remove :: "('k \<times> 'v) list \<Rightarrow> 'k \<Rightarrow> ('k \<times> 'v) list" where
  "qmap_remove m k = filter (\<lambda>p. fst p \<noteq> k) m"

definition qmap_keys :: "('k \<times> 'v) list \<Rightarrow> 'k list" where
  "qmap_keys m = map fst m"

definition qmap_values :: "('k \<times> 'v) list \<Rightarrow> 'v list" where
  "qmap_values m = map snd m"

text \<open>
  What the sources can run into outside their own control flow: an exception of OpenCV,
  a dereferenced end iterator or null pointer, an index past the end of a vector, a loop
  that never ends.
\<close>

datatype failure =
    StsUnmatchedSizes
  | StsUnmatchedFormats
  | RangeAssertion
  | EndIterator
  | NullSignature
  | VectorIndex
  | LoopDiverges

subsection \<open>Keypoints and \<^verbatim>\<open>limitKeypoints\<close>\<close>

record KeyPoint =
  pt_x :: real
  pt_y :: real
  kp_size :: real
  kp_angle :: real
  response :: real
  octave :: int
  class_id :: int

text \<open>The default-constructed \<^verbatim>\<open>cv::KeyPoint\<close> that \<^verbatim>\<open>kptsKept.resize\<close> fills in.\<close>

definition KeyPoint_default :: KeyPoint where
  "KeyPoint_default =
     \<lparr>pt_x = 0, pt_y = 0, kp_size = 0, kp_angle = - 1, response = 0, octave = 0, class_id = - 1\<rparr>"

text \<open>The first loop of \<^verbatim>\<open>limitKeypoints\<close>: \<^verbatim>\<open>reponseMap.insert(pair(fabs(response), i))\<close>.\<close>

fun reponseMap_fill :: "KeyPoint list \<Rightarrow> nat \<Rightarrow> (real \<times> nat) list \<Rightarrow> (real \<times> nat) list" where
  "reponseMap_fill [] i m = m"
| "reponseMap_fill (kp # kps) i m =
     reponseMap_fill kps (Suc i) (multimap_insert (\<bar>response kp\<bar>, i) m)"

text \<open>
  The second loop walks the map from \<^verbatim>\<open>rbegin()\<close> for \<^verbatim>\<open>maxKeypoints\<close> steps;
  \<open>limitKeypoints_kept\<close> is the sequence of \<^verbatim>\<open>iter->second\<close> it visits.
\<close>

definition limitKeypoints_kept :: "KeyPoint list \<Rightarrow> int \<Rightarrow> nat list" where
  "limitKeypoints_kept keypoints maxKeypoints =
     map snd (take (nat maxKeypoints) (rev (reponseMap_fill keypoints 0 [])))"

definition limitKeypoints :: "KeyPoint list \<Rightarrow> int \<Rightarrow> KeyPoint list" where
  "limitKeypoints keypoints maxKeypoints =
     (if maxKeypoints > 0 \<and> int (length keypoints) > maxKeypoints then
        (let kept = limitKeypoints_kept keypoints maxKeypoints
         in map (\<lambda>i. keypoints ! i) kept
            @ replicate (nat maxKeypoints - length kept) KeyPoint_default)
      else keypoints)"

text \<open>The iteration order of the response map: by key, then by index.\<close>

definition resp_before :: "real \<times> nat \<Rightarrow> real \<times> nat \<Rightarrow> bool" where
  "resp_before p q = (fst p < fst q \<or> (fst p = fst q \<and> snd p < snd q))"

subsection \<open>Descriptor matrices\<close>

text \<open>
  A \<^verbatim>\<open>cv::Mat\<close> of descriptors: its column count, its element type code and one entry
  of \<^typ>\<open>'d\<close> per row. \<^verbatim>\<open>cv::Mat()\<close> has no rows, no columns and type code 0;
  \<^verbatim>\<open>empty()\<close> holds when the matrix has no element.
\<close>

record 'd Mat =
  mat_cols :: nat
  mat_type :: nat
  mat_data :: "'d list"

definition Mat_new :: "'d Mat" where
  "Mat_new = \<lparr>mat_cols = 0, mat_type = 0, mat_data = []\<rparr>"

definition Mat_rows :: "'d Mat \<Rightarrow> int" where
  "Mat_rows m = int (length (mat_data m))"

definition Mat_empty :: "'d Mat \<Rightarrow> bool" where
  "Mat_empty m = (mat_data m = [] \<or> mat_cols m = 0)"

text \<open>\<^verbatim>\<open>descriptors.row(i)\<close>: a one-row matrix of the same width and type.\<close>

definition Mat_row :: "'d Mat \<Rightarrow> 'd \<Rightarrow> 'd Mat" where
  "Mat_row m d = m\<lparr>mat_data := [d]\<rparr>"

text \<open>
  \<^verbatim>\<open>cv::Mat::push_back(elems)\<close>: nothing to do for no rows; a matrix without data
  becomes a copy of \<^verbatim>\<open>elems\<close>; otherwise width and type must agree, or OpenCV raises
  \<^verbatim>\<open>StsUnmatchedSizes\<close> or \<^verbatim>\<open>StsUnmatchedFormats\<close>.
\<close>

definition Mat_push_back :: "'d Mat \<Rightarrow> 'd Mat \<Rightarrow> failure + 'd Mat" where
  "Mat_push_back m elems =
     (if mat_data elems = [] then Inr m
      else if Mat_empty m then Inr elems
      else if mat_cols m \<noteq> mat_cols elems then Inl StsUnmatchedSizes
      else if mat_type m \<noteq> mat_type elems then Inl StsUnmatchedFormats
      else Inr (m\<lparr>mat_data := mat_data m @ mat_data elems\<rparr>))"

text \<open>A descriptor matrix with rows has columns.\<close>

definition Mat_ok :: "'d Mat \<Rightarrow> bool" where
  "Mat_ok m = (mat_data m = [] \<or> 0 < mat_cols m)"

subsection \<open>Settings and the external searches\<close>

text \<open>
  The entries of the static \<^verbatim>\<open>Settings\<close> class that the modelled code reads
  (\<^verbatim>\<open>Settings.h\<close> is not among the sources; the getters are parameters).
\<close>

record Settings =
  General_nextObjID :: int
  General_invertedSearch :: bool
  General_threads :: int
  General_vocabularyIncremental :: bool
  General_vocabularyUpdateMinWords :: int
  General_multiDetection :: bool
  General_multiDetectionRadius :: int
  Feature2D_3MaxFeatures :: int
  NearestNeighbor_3nndrRatioUsed :: bool
  NearestNeighbor_4nndrRatio :: real
  NearestNeighbor_5minDistanceUsed :: bool
  NearestNeighbor_6minDistance :: real

text \<open>
  The nearest-neighbour searches of OpenCV, per query row: \<open>knnSearch data q k\<close> is
  \<^verbatim>\<open>cv::flann::Index::knnSearch\<close> on an index built over \<open>data\<close>, \<open>linearSearch data q k\<close>
  is the linear scan of the staging block (\<^verbatim>\<open>cv::batchDistance\<close>, or a linear FLANN
  index). Both return \<open>k\<close> pairs of a row number (negative: none) and a distance,
  nearest first; integer distances are already converted to \<^verbatim>\<open>float\<close>.
\<close>

record 'd Nearest =
  knnSearch :: "'d list \<Rightarrow> 'd \<Rightarrow> nat \<Rightarrow> (int \<times> real) list"
  linearSearch :: "'d list \<Rightarrow> 'd \<Rightarrow> nat \<Rightarrow> (int \<times> real) list"

text \<open>The contract of \<^verbatim>\<open>knnSearch\<close>: a row number it returns is a row of the index.\<close>

definition knn_in_range :: "'d Nearest \<Rightarrow> bool" where
  "knn_in_range nn =
     (\<forall>data q k. \<forall>t\<in>set (knnSearch nn data q k). fst t < int (length data))"

subsection \<open>\<^verbatim>\<open>Vocabulary\<close>\<close>

text \<open>
  The members of the class (\<^verbatim>\<open>Vocabulary.h\<close> is not among the sources; the members
  are those the methods use). \<open>flannIndex\<close> (the member \<^verbatim>\<open>flannIndex_\<close>; a name cannot end in an underscore here) is the data the index was last built over.
\<close>

record 'd Vocabulary =
  indexedDescriptors :: "'d Mat"
  notIndexedDescriptors :: "'d Mat"
  wordToObjects :: "(int \<times> int) list"
  notIndexedWordIds :: "int list"
  flannIndex :: "'d list"

definition Vocabulary_new :: "'d Vocabulary" where
  "Vocabulary_new =
     \<lparr>indexedDescriptors = Mat_new, notIndexedDescriptors = Mat_new,
      wordToObjects = [], notIndexedWordIds = [], flannIndex = []\<rparr>"

definition Vocabulary_clear :: "'d Vocabulary \<Rightarrow> 'd Vocabulary" where
  "Vocabulary_clear v =
     v\<lparr>indexedDescriptors := Mat_new, notIndexedDescriptors := Mat_new,
       wordToObjects := [], notIndexedWordIds := []\<rparr>"

text \<open>
  Modelled from the spec: \<^verbatim>\<open>Vocabulary::size()\<close> is declared in \<^verbatim>\<open>Vocabulary.h\<close>, which
  is not among the sources. The spec numbers the words \<open>[0, M + M')\<close> over the indexed
  rows and the staging rows, and has \<^verbatim>\<open>indexedDescriptors.rows == vocab.size\<close> once the
  staging block is empty.
\<close>

definition Vocabulary_size :: "'d Vocabulary \<Rightarrow> int" where
  "Vocabulary_size v = Mat_rows (indexedDescriptors v) + Mat_rows (notIndexedDescriptors v)"

text \<open>
  The incremental path, one descriptor row. \<open>fullResults_staging\<close> is the loop over the
  columns of \<^verbatim>\<open>tmpResults\<close> (\<^verbatim>\<open>notIndexedWordIds.at\<close> past the end is a failure),
  \<open>fullResults_index\<close> the loop over the two columns of \<^verbatim>\<open>results\<close>.
\<close>

fun fullResults_staging ::
  "int list \<Rightarrow> (int \<times> real) list \<Rightarrow> (real \<times> int) list \<Rightarrow> failure + (real \<times> int) list" where
  "fullResults_staging ids [] fr = Inr fr"
| "fullResults_staging ids (t # ts) fr =
     (if fst t \<ge> 0 then
        (if nat (fst t) < length ids
         then fullResults_staging ids ts (qmultimap_insert (snd t) (ids ! nat (fst t)) fr)
         else Inl VectorIndex)
      else fullResults_staging ids ts fr)"

fun fullResults_index :: "(int \<times> real) list \<Rightarrow> (real \<times> int) list \<Rightarrow> (real \<times> int) list" where
  "fullResults_index [] fr = fr"
| "fullResults_index (t # ts) fr =
     fullResults_index ts (if fst t \<ge> 0 then qmultimap_insert (snd t) (fst t) fr else fr)"

text \<open>
  \<^verbatim>\<open>fullResults\<close> of one row: the candidates of the staging block, then those of the
  index when \<^verbatim>\<open>globalSearch\<close> is set.
\<close>

definition fullResults_of ::
  "'d Nearest \<Rightarrow> 'd Vocabulary \<Rightarrow> bool \<Rightarrow> 'd \<Rightarrow> failure + (real \<times> int) list" where
  "fullResults_of nn v globalSearch d =
     (case (if Mat_rows (notIndexedDescriptors v) \<noteq> 0
            then fullResults_staging (notIndexedWordIds v)
                   (linearSearch nn (mat_data (notIndexedDescriptors v)) d
                      (if Mat_rows (notIndexedDescriptors v) \<ge> 2 then 2 else 1)) []
            else Inr []) of
        Inl e \<Rightarrow> Inl e
      | Inr fr \<Rightarrow>
          Inr (if globalSearch
               then fullResults_index (take 2 (knnSearch nn (flannIndex v) d 2)) fr
               else fr))"

text \<open>The NNDR test of \<^verbatim>\<open>addWords\<close> on the two nearest candidates.\<close>

definition nndr_match :: "Settings \<Rightarrow> (real \<times> int) list \<Rightarrow> bool" where
  "nndr_match cfg fullResults =
     (length fullResults \<ge> 2
      \<and> fst (fullResults ! 0) \<le> NearestNeighbor_4nndrRatio cfg * fst (fullResults ! 1))"

definition addWords_row ::
  "'d Nearest \<Rightarrow> Settings \<Rightarrow> 'd Mat \<Rightarrow> int \<Rightarrow> bool \<Rightarrow> int \<Rightarrow> 'd \<Rightarrow>
   (int \<times> int) list \<times> 'd Vocabulary \<Rightarrow> failure + ((int \<times> int) list \<times> 'd Vocabulary)" where
  "addWords_row nn cfg descriptors objectId globalSearch i d acc =
     (case fullResults_of nn (snd acc) globalSearch d of
        Inl e \<Rightarrow> Inl e
      | Inr fullResults \<Rightarrow>
         (if nndr_match cfg fullResults
          then Inr (qmultimap_insert (snd (fullResults ! 0)) i (fst acc),
                    (snd acc)\<lparr>wordToObjects :=
                        qmultimap_insert (snd (fullResults ! 0)) objectId
                          (wordToObjects (snd acc))\<rparr>)
          else (case Mat_push_back (notIndexedDescriptors (snd acc)) (Mat_row descriptors d) of
                  Inl e \<Rightarrow> Inl e
                | Inr staging' \<Rightarrow>
                    Inr (qmultimap_insert ((Mat_rows (indexedDescriptors (snd acc)) + Mat_rows (notIndexedDescriptors (snd acc)))) i (fst acc),
                         (snd acc)\<lparr>notIndexedWordIds :=
                             notIndexedWordIds (snd acc) @ [(Mat_rows (indexedDescriptors (snd acc)) + Mat_rows (notIndexedDescriptors (snd acc)))],
                           notIndexedDescriptors := staging',
                           wordToObjects :=
                             qmultimap_insert ((Mat_rows (indexedDescriptors (snd acc)) + Mat_rows (notIndexedDescriptors (snd acc)))) objectId
                               (wordToObjects (snd acc))\<rparr>))))"

fun addWords_incremental ::
  "'d Nearest \<Rightarrow> Settings \<Rightarrow> 'd Mat \<Rightarrow> int \<Rightarrow> bool \<Rightarrow> 'd list \<Rightarrow> int \<Rightarrow>
   (int \<times> int) list \<times> 'd Vocabulary \<Rightarrow> failure + ((int \<times> int) list \<times> 'd Vocabulary)" where
  "addWords_incremental nn cfg descriptors objectId globalSearch [] i acc = Inr acc"
| "addWords_incremental nn cfg descriptors objectId globalSearch (d # ds) i acc =
     (case addWords_row nn cfg descriptors objectId globalSearch i d acc of
        Inl e \<Rightarrow> Inl e
      | Inr acc' \<Rightarrow> addWords_incremental nn cfg descriptors objectId globalSearch ds (i + 1) acc')"

text \<open>
  The non-incremental path, one row: the word-id is
  \<^verbatim>\<open>indexedDescriptors.rows + notIndexedDescriptors.rows + i\<close>; the staging matrix
  grows only after the loop, so the base is the same for every row.
\<close>

definition addWords_bulk_row ::
  "int \<Rightarrow> int \<Rightarrow> nat \<Rightarrow> (int \<times> int) list \<times> (int \<times> int) list \<times> int list \<Rightarrow>
   (int \<times> int) list \<times> (int \<times> int) list \<times> int list" where
  "addWords_bulk_row base objectId i acc =
     (qmultimap_insert (base + int i) (int i) (fst acc),
      qmultimap_insert (base + int i) objectId (fst (snd acc)),
      snd (snd acc) @ [base + int i])"

definition Vocabulary_addWords ::
  "'d Nearest \<Rightarrow> Settings \<Rightarrow> 'd Vocabulary \<Rightarrow> 'd Mat \<Rightarrow> int \<Rightarrow> bool \<Rightarrow>
   failure + ((int \<times> int) list \<times> 'd Vocabulary)" where
  "Vocabulary_addWords nn cfg v descriptors objectId incremental =
     (if Mat_empty descriptors then Inr ([], v)
      else if incremental then
        addWords_incremental nn cfg descriptors objectId
          (\<not> Mat_empty (indexedDescriptors v) \<and> Mat_rows (indexedDescriptors v) \<ge> 2)
          (mat_data descriptors) 0 ([], v)
      else
        (let base = Mat_rows (indexedDescriptors v) + Mat_rows (notIndexedDescriptors v);
             acc = fold (addWords_bulk_row base objectId) [0..<length (mat_data descriptors)]
                     ([], wordToObjects v, notIndexedWordIds v)
         in case Mat_push_back (notIndexedDescriptors v) descriptors of
              Inl e \<Rightarrow> Inl e
            | Inr staging' \<Rightarrow>
                Inr (fst acc,
                     v\<lparr>wordToObjects := fst (snd acc),
                       notIndexedWordIds := snd (snd acc),
                       notIndexedDescriptors := staging'\<rparr>)))"

definition Vocabulary_update :: "'d Vocabulary \<Rightarrow> failure + 'd Vocabulary" where
  "Vocabulary_update v =
     (case (if \<not> Mat_empty (notIndexedDescriptors v)
            then (case Mat_push_back (indexedDescriptors v) (notIndexedDescriptors v) of
                    Inl e \<Rightarrow> Inl e
                  | Inr m \<Rightarrow> Inr (v\<lparr>indexedDescriptors := m,
                                     notIndexedDescriptors := Mat_new,
                                     notIndexedWordIds := []\<rparr>))
            else Inr v) of
        Inl e \<Rightarrow> Inl e
      | Inr v' \<Rightarrow>
          Inr (if \<not> Mat_empty (indexedDescriptors v')
               then v'\<lparr>flannIndex := mat_data (indexedDescriptors v')\<rparr>
               else v'))"

text \<open>The condition of the \<^verbatim>\<open>Q_ASSERT\<close> that opens \<^verbatim>\<open>Vocabulary::search\<close>.\<close>

definition Vocabulary_search_assert :: "'d Vocabulary \<Rightarrow> bool" where
  "Vocabulary_search_assert v =
     (Mat_empty (notIndexedDescriptors v) \<and> length (notIndexedWordIds v) = 0)"

text \<open>
  \<^verbatim>\<open>Vocabulary::search\<close>: one result row per query row, or \<open>None\<close> when the indexed
  block is empty and \<^verbatim>\<open>results\<close> and \<^verbatim>\<open>dists\<close> are left as the caller allocated them.
\<close>

definition Vocabulary_search ::
  "'d Nearest \<Rightarrow> 'd Vocabulary \<Rightarrow> 'd Mat \<Rightarrow> nat \<Rightarrow> (int \<times> real) list list option" where
  "Vocabulary_search nn v descriptors k =
     (if \<not> Mat_empty (indexedDescriptors v)
      then Some (map (\<lambda>q. knnSearch nn (flannIndex v) q k) (mat_data descriptors))
      else None)"

text \<open>The staging block takes a matrix: it is empty, or agrees with it in width and type.\<close>

definition staging_takes :: "'d Vocabulary \<Rightarrow> 'd Mat \<Rightarrow> bool" where
  "staging_takes v d =
     (Mat_empty (notIndexedDescriptors v)
      \<or> (mat_cols (notIndexedDescriptors v) = mat_cols d
         \<and> mat_type (notIndexedDescriptors v) = mat_type d))"

text \<open>
  The staging invariant. \<open>M\<close> is the indexed row count, \<open>M'\<close> the staging row count:
  one word-id per staging row, \<open>notIndexedWordIds[k] = M + k\<close>, the word-ids in use are
  exactly \<open>[0, M + M')\<close>, both blocks are matrices with columns, and a non-empty indexed
  block is the block the index was built over.
\<close>

definition staging_inv :: "'d Vocabulary \<Rightarrow> bool" where
  "staging_inv v =
     (Mat_ok (indexedDescriptors v) \<and> Mat_ok (notIndexedDescriptors v)
      \<and> int (length (notIndexedWordIds v)) = Mat_rows (notIndexedDescriptors v)
      \<and> (\<forall>k < length (notIndexedWordIds v).
            notIndexedWordIds v ! k = Mat_rows (indexedDescriptors v) + int k)
      \<and> set (map fst (wordToObjects v)) = {0 ..< Vocabulary_size v}
      \<and> (\<not> Mat_empty (indexedDescriptors v) \<longrightarrow>
            flannIndex v = mat_data (indexedDescriptors v)))"

subsection \<open>The object library\<close>

text \<open>
  An \<^verbatim>\<open>ObjSignature\<close> (\<^verbatim>\<open>ObjSignature.h\<close> is not among the sources): the members the
  modelled code reads and writes. Image, rectangle and file name play no part here.
\<close>

record 'd ObjSignature =
  obj_id :: int
  obj_keypoints :: "KeyPoint list"
  obj_descriptors :: "'d Mat"
  obj_words :: "(int \<times> int) list"

text \<open>
  The members of \<^verbatim>\<open>FindObject\<close> (\<^verbatim>\<open>objects_\<close>, \<^verbatim>\<open>vocabulary_\<close>,
  \<^verbatim>\<open>objectsDescriptors_\<close>, \<^verbatim>\<open>dataRange_\<close>) and the settings store the class reads and,
  for \<^verbatim>\<open>nextObjID\<close>, writes.
\<close>

record 'd FindObject =
  objects :: "(int \<times> 'd ObjSignature) list"
  vocabulary :: "'d Vocabulary"
  objectsDescriptors :: "(int \<times> 'd Mat) list"
  dataRange :: "(int \<times> int) list"
  settings :: Settings

definition clearVocabulary :: "'d FindObject \<Rightarrow> 'd FindObject" where
  "clearVocabulary st =
     st\<lparr>objectsDescriptors := [], dataRange := [],
        vocabulary := Vocabulary_clear (vocabulary st)\<rparr>"

text \<open>\<^verbatim>\<open>bool FindObject::addObject(ObjSignature * obj)\<close>, with the flag it returns.\<close>

definition addObject :: "'d FindObject \<Rightarrow> 'd ObjSignature \<Rightarrow> bool \<times> 'd FindObject" where
  "addObject st obj =
     (if obj_id obj \<noteq> 0 \<and> qmap_contains (objects st) (obj_id obj) then (False, st)
      else
        (let obj' = (if obj_id obj = 0
                     then obj\<lparr>obj_id := General_nextObjID (settings st)\<rparr> else obj);
             st1 = st\<lparr>settings := (settings st)\<lparr>General_nextObjID := obj_id obj' + 1\<rparr>\<rparr>;
             st2 = st1\<lparr>objects := qmap_insert (obj_id obj') obj' (objects st1)\<rparr>
         in (True, clearVocabulary st2)))"

text \<open>The id under which a call of \<open>addObject\<close> stores the signature.\<close>

definition added_id :: "'d FindObject \<Rightarrow> 'd ObjSignature \<Rightarrow> int" where
  "added_id st obj = (if obj_id obj = 0 then General_nextObjID (settings st) else obj_id obj)"

text \<open>
  \<^verbatim>\<open>addObject(image, id, filename)\<close>: a fresh signature without features, then the
  overload above.
\<close>

definition addObject_image :: "'d FindObject \<Rightarrow> int \<Rightarrow> bool \<times> 'd FindObject" where
  "addObject_image st ident =
     addObject st \<lparr>obj_id = ident, obj_keypoints = [], obj_descriptors = Mat_new, obj_words = []\<rparr>"

definition removeObject :: "'d FindObject \<Rightarrow> int \<Rightarrow> 'd FindObject" where
  "removeObject st ident =
     (if qmap_contains (objects st) ident
      then clearVocabulary (st\<lparr>objects := qmap_remove (objects st) ident\<rparr>)
      else st)"

definition removeAllObjects :: "'d FindObject \<Rightarrow> 'd FindObject" where
  "removeAllObjects st = clearVocabulary (st\<lparr>objects := []\<rparr>)"

subsection \<open>\<^verbatim>\<open>updateVocabulary\<close>\<close>

text \<open>
  The first loop: \<open>(count, dim, type)\<close> over the signatures in key order; \<open>None\<close> is the
  early \<^verbatim>\<open>return\<close> after \<^verbatim>\<open>UERROR\<close>.
\<close>

fun verify_descriptors ::
  "'d ObjSignature list \<Rightarrow> int \<times> int \<times> int \<Rightarrow> (int \<times> int \<times> int) option" where
  "verify_descriptors [] acc = Some acc"
| "verify_descriptors (obj # objs) acc =
     (let count = fst acc; dim = fst (snd acc); ty = snd (snd acc); d = obj_descriptors obj
      in if \<not> Mat_empty d then
           (if dim \<ge> 0 \<and> int (mat_cols d) \<noteq> dim then None
            else if ty \<ge> 0 \<and> int (mat_type d) \<noteq> ty then None
            else verify_descriptors objs (count + Mat_rows d, int (mat_cols d), int (mat_type d)))
         else verify_descriptors objs acc)"

text \<open>
  The copy loop of the single-matrix mode: the rows of every signature with rows go
  to \<^verbatim>\<open>[row, row + rows)\<close> of the global matrix (\<^verbatim>\<open>cv::Range\<close> past \<^verbatim>\<open>count\<close> fails
  an OpenCV assertion), and \<^verbatim>\<open>dataRange_\<close> maps the last row to the object id.
\<close>

fun copy_descriptors ::
  "'d ObjSignature list \<Rightarrow> int \<Rightarrow> int \<Rightarrow> 'd list \<times> (int \<times> int) list \<Rightarrow>
   failure + ('d list \<times> (int \<times> int) list)" where
  "copy_descriptors [] count row acc = Inr acc"
| "copy_descriptors (obj # objs) count row acc =
     (let d = obj_descriptors obj
      in if Mat_rows d \<noteq> 0 then
           (if row + Mat_rows d > count then Inl RangeAssertion
            else copy_descriptors objs count (row + Mat_rows d)
                   (fst acc @ mat_data d,
                    qmap_insert (row + Mat_rows d - 1) (obj_id obj) (snd acc)))
         else copy_descriptors objs count row acc)"

text \<open>
  The vocabulary loop of the inverted mode: \<^verbatim>\<open>addWords\<close> per signature,
  \<^verbatim>\<open>setWords\<close> on the signature, and the intermediate \<^verbatim>\<open>update()\<close> of the incremental
  mode. The result carries \<^verbatim>\<open>addedWords\<close>.
\<close>

fun addWords_objects ::
  "'d Nearest \<Rightarrow> Settings \<Rightarrow> 'd ObjSignature list \<Rightarrow> int \<Rightarrow>
   (int \<times> 'd ObjSignature) list \<times> 'd Vocabulary \<Rightarrow>
   failure + (int \<times> (int \<times> 'd ObjSignature) list \<times> 'd Vocabulary)" where
  "addWords_objects nn cfg [] addedWords acc = Inr (addedWords, acc)"
| "addWords_objects nn cfg (obj # objs) addedWords acc =
     (case Vocabulary_addWords nn cfg (snd acc) (obj_descriptors obj) (obj_id obj)
             (General_vocabularyIncremental cfg) of
        Inl e \<Rightarrow> Inl e
      | Inr r \<Rightarrow>
         (let objs' = qmap_insert (obj_id obj) (obj\<lparr>obj_words := fst r\<rparr>) (fst acc);
              added = addedWords + int (length (uniqueKeys (fst r)))
          in if General_vocabularyIncremental cfg \<and> added \<noteq> 0
                \<and> added \<ge> General_vocabularyUpdateMinWords cfg
             then (case Vocabulary_update (snd r) of
                     Inl e \<Rightarrow> Inl e
                   | Inr v' \<Rightarrow> addWords_objects nn cfg objs 0 (objs', v'))
             else addWords_objects nn cfg objs added (objs', snd r)))"

definition updateVocabulary :: "'d Nearest \<Rightarrow> 'd FindObject \<Rightarrow> failure + 'd FindObject" where
  "updateVocabulary nn st0 =
     (let st = clearVocabulary st0; cfg = settings st; objectsList = qmap_values (objects st)
      in case verify_descriptors objectsList (0, - 1, - 1) of
           None \<Rightarrow> Inr st
         | Some r \<Rightarrow>
            (let count = fst r; dim = fst (snd r); ty = snd (snd r)
             in if count \<noteq> 0 then
                  (if General_invertedSearch cfg \<or> General_threads cfg = 1 then
                     (case copy_descriptors objectsList count 0 ([], []) of
                        Inl e \<Rightarrow> Inl e
                      | Inr c \<Rightarrow>
                         (let st1 = st\<lparr>objectsDescriptors :=
                                          qmap_insert 0 \<lparr>mat_cols = nat dim, mat_type = nat ty,
                                                         mat_data = fst c\<rparr> [],
                                        dataRange := snd c\<rparr>
                          in if General_invertedSearch cfg then
                               (case addWords_objects nn cfg objectsList 0
                                       (objects st1, vocabulary st1) of
                                  Inl e \<Rightarrow> Inl e
                                | Inr a \<Rightarrow>
                                   (case (if fst a \<noteq> 0 then Vocabulary_update (snd (snd a))
                                          else Inr (snd (snd a))) of
                                      Inl e \<Rightarrow> Inl e
                                    | Inr v' \<Rightarrow>
                                        Inr (st1\<lparr>objects := fst (snd a), vocabulary := v'\<rparr>)))
                             else Inr st1))
                   else Inr (st\<lparr>objectsDescriptors :=
                                   fold (\<lambda>obj m. qmap_insert (obj_id obj) (obj_descriptors obj) m)
                                     objectsList []\<rparr>))
                else Inr st))"

text \<open>
  The state every library mutation leaves: no global descriptors, no row ranges, and a
  vocabulary with both blocks, the word map and the staging ids empty.
\<close>

definition library_cleared :: "'d FindObject \<Rightarrow> bool" where
  "library_cleared s =
     (objectsDescriptors s = [] \<and> dataRange s = []
      \<and> indexedDescriptors (vocabulary s) = Mat_new
      \<and> notIndexedDescriptors (vocabulary s) = Mat_new
      \<and> wordToObjects (vocabulary s) = []
      \<and> notIndexedWordIds (vocabulary s) = [])"

text \<open>The non-empty descriptor matrices of two signatures differ in width or type.\<close>

definition descriptors_mismatch :: "'d ObjSignature \<Rightarrow> 'd ObjSignature \<Rightarrow> bool" where
  "descriptors_mismatch a b =
     (\<not> Mat_empty (obj_descriptors a) \<and> \<not> Mat_empty (obj_descriptors b)
      \<and> (mat_cols (obj_descriptors a) \<noteq> mat_cols (obj_descriptors b)
         \<or> mat_type (obj_descriptors a) \<noteq> mat_type (obj_descriptors b)))"

subsection \<open>The matching stage of \<^verbatim>\<open>detect\<close>\<close>

text \<open>
  The part of \<^verbatim>\<open>DetectionInfo\<close> that the stages up to \<^verbatim>\<open>kTimeMatching\<close> write.
  Modelled from the spec: the constructor of \<^verbatim>\<open>DetectionInfo\<close> is in a header that is
  not among the sources; the spec has both distances "initialized to -1 sentinel", as
  the constructor of \<^verbatim>\<open>SearchThread\<close> has its own.
\<close>

record 'd DetectionInfo =
  sceneKeypoints :: "KeyPoint list"
  sceneDescriptors :: "'d Mat"
  matches :: "(int \<times> (int \<times> int) list) list"
  minMatchedDistance :: real
  maxMatchedDistance :: real

definition DetectionInfo_new :: "'d DetectionInfo" where
  "DetectionInfo_new =
     \<lparr>sceneKeypoints = [], sceneDescriptors = Mat_new, matches = [],
      minMatchedDistance = - 1, maxMatchedDistance = - 1\<rparr>"

text \<open>
  What \<^verbatim>\<open>detect\<close> takes from outside: the image test, the keypoint detector, the
  descriptor extractor (it may drop keypoints), and \<open>unwritten n\<close>, the content of the
  \<open>n\<close> freshly allocated rows of \<^verbatim>\<open>results\<close> and \<^verbatim>\<open>dists\<close> that a search leaves
  untouched.
\<close>

record ('img, 'd) Pipeline =
  image_empty :: "'img \<Rightarrow> bool"
  detector_detect :: "'img \<Rightarrow> KeyPoint list"
  extractor_compute :: "'img \<Rightarrow> KeyPoint list \<Rightarrow> KeyPoint list \<times> 'd Mat"
  unwritten :: "nat \<Rightarrow> (int \<times> real) list list"

text \<open>
  A row of the search output is the list of its \<open>k\<close> pairs (word-id, distance):
  \<open>fst (r ! 0)\<close> is \<^verbatim>\<open>results.at<int>(i,0)\<close>, \<open>snd (r ! j)\<close> is \<^verbatim>\<open>dists.at<float>(i,j)\<close>.
  The second column is read only under \<^verbatim>\<open>nndrRatioUsed\<close>, where \<open>k = 2\<close>.
\<close>

definition row_matched :: "Settings \<Rightarrow> (int \<times> real) list \<Rightarrow> bool" where
  "row_matched cfg r =
     (let m1 = (NearestNeighbor_3nndrRatioUsed cfg
                \<and> snd (r ! 0) \<le> NearestNeighbor_4nndrRatio cfg * snd (r ! 1));
          m2 = (if (m1 \<or> \<not> NearestNeighbor_3nndrRatioUsed cfg)
                   \<and> NearestNeighbor_5minDistanceUsed cfg
                then snd (r ! 0) \<le> NearestNeighbor_6minDistance cfg
                else m1)
      in if \<not> m2 \<and> \<not> NearestNeighbor_3nndrRatioUsed cfg
            \<and> \<not> NearestNeighbor_5minDistanceUsed cfg
         then True else m2)"

definition min_update :: "real \<Rightarrow> real \<Rightarrow> real" where
  "min_update mn d = (if mn = - 1 \<or> mn > d then d else mn)"

definition max_update :: "real \<Rightarrow> real \<Rightarrow> real" where
  "max_update mx d = (if mx = - 1 \<or> mx < d then d else mx)"

definition search_k :: "Settings \<Rightarrow> nat" where
  "search_k cfg = (if NearestNeighbor_3nndrRatioUsed cfg then 2 else 1)"

text \<open>\<^verbatim>\<open>results\<close> and \<^verbatim>\<open>dists\<close> after the call of \<^verbatim>\<open>vocabulary_->search\<close>.\<close>

definition search_output ::
  "'d Nearest \<Rightarrow> ('img, 'd) Pipeline \<Rightarrow> 'd Vocabulary \<Rightarrow> 'd Mat \<Rightarrow> nat \<Rightarrow>
   (int \<times> real) list list" where
  "search_output nn px v descriptors k =
     (case Vocabulary_search nn v descriptors k of
        Some rows \<Rightarrow> rows
      | None \<Rightarrow> unwritten px (length (mat_data descriptors)))"

text \<open>
  \<^verbatim>\<open>SearchThread::run\<close>, the loop over the rows of \<^verbatim>\<open>dists\<close>: the accumulator is
  \<open>(matches_, minMatchedDistance_, maxMatchedDistance_)\<close>.
\<close>

fun SearchThread_rows ::
  "Settings \<Rightarrow> (int \<times> int) list \<Rightarrow> (int \<times> real) list list \<Rightarrow> int \<Rightarrow>
   (int \<times> int) list \<times> real \<times> real \<Rightarrow> (int \<times> int) list \<times> real \<times> real" where
  "SearchThread_rows cfg sceneWords [] i acc = acc"
| "SearchThread_rows cfg sceneWords (r # rs) i acc =
     (let matched = row_matched cfg r;
          mn = min_update (fst (snd acc)) (snd (r ! 0));
          mx = max_update (snd (snd acc)) (snd (r ! 0));
          wordId = fst (r ! 0);
          ms = (if matched \<and> qmultimap_count sceneWords wordId = 1
                then qmultimap_insert i wordId
                       (qmultimap_insert i (qmultimap_value sceneWords wordId 0) (fst acc))
                else fst acc)
      in SearchThread_rows cfg sceneWords rs (i + 1) (ms, mn, mx))"

definition SearchThread_run ::
  "Settings \<Rightarrow> (int \<times> int) list \<Rightarrow> (int \<times> real) list list \<Rightarrow>
   (int \<times> int) list \<times> real \<times> real" where
  "SearchThread_run cfg sceneWords rows = SearchThread_rows cfg sceneWords rows 0 ([], - 1, - 1)"

text \<open>
  The join of one worker: \<^verbatim>\<open>info.matches_[id] = getMatches()\<close> and the reduction of
  the two distances. The accumulator is \<open>(matches_, min, max)\<close> of \<^verbatim>\<open>info\<close>.
\<close>

definition SearchThread_join ::
  "int \<times> (int \<times> int) list \<times> real \<times> real \<Rightarrow>
   (int \<times> (int \<times> int) list) list \<times> real \<times> real \<Rightarrow>
   (int \<times> (int \<times> int) list) list \<times> real \<times> real" where
  "SearchThread_join t acc =
     (qmap_insert (fst t) (fst (snd t)) (fst acc),
      min_update (fst (snd acc)) (fst (snd (snd t))),
      max_update (snd (snd acc)) (snd (snd (snd t))))"

text \<open>
  The batches of \<open>n\<close> workers: every worker of a batch is started, then they are joined
  in the order they were started.
\<close>

function search_batches ::
  "nat \<Rightarrow> (int \<times> (int \<times> int) list \<times> real \<times> real) list \<Rightarrow>
   (int \<times> (int \<times> int) list) list \<times> real \<times> real \<Rightarrow>
   (int \<times> (int \<times> int) list) list \<times> real \<times> real" where
  "search_batches n ts acc =
     (if ts = [] \<or> n = 0 then acc
      else search_batches n (drop n ts) (fold SearchThread_join (take n ts) acc))"
  by pat_completeness auto
termination
  by (relation "measure (\<lambda>(n, ts, acc). length ts)") auto

text \<open>
  The multi-threaded branch: one worker per entry of \<^verbatim>\<open>objectsDescriptors_\<close>, each
  searching its own matrix. With a negative \<^verbatim>\<open>threads\<close> setting the outer loop starts
  no worker and steps backwards for ever.
\<close>

definition match_threads ::
  "'d Nearest \<Rightarrow> ('img, 'd) Pipeline \<Rightarrow> Settings \<Rightarrow> 'd Vocabulary \<Rightarrow> (int \<times> int) list \<Rightarrow>
   (int \<times> 'd Mat) list \<Rightarrow> (int \<times> (int \<times> int) list) list \<times> real \<times> real \<Rightarrow>
   failure + ((int \<times> (int \<times> int) list) list \<times> real \<times> real)" where
  "match_threads nn px cfg v words descs acc =
     (let threadCounts = (if General_threads cfg = 0 then int (length descs)
                          else General_threads cfg)
      in if descs \<noteq> [] \<and> threadCounts \<le> 0 then Inl LoopDiverges
         else Inr (search_batches (nat threadCounts)
                     (map (\<lambda>p. (fst p,
                                 SearchThread_run cfg words
                                   (search_output nn px v (snd p) (search_k cfg))))
                        descs)
                     acc))"

text \<open>
  The single-matrix branch, inverted mode: every object that holds the word exactly
  once gets the pair (keypoint of the object, scene row).
\<close>

fun match_inverted ::
  "(int \<times> 'd ObjSignature) list \<Rightarrow> (int \<times> int) list \<Rightarrow> int \<Rightarrow> int \<Rightarrow> int list \<Rightarrow>
   (int \<times> (int \<times> int) list) list \<Rightarrow> failure + (int \<times> (int \<times> int) list) list" where
  "match_inverted objs w2o wordId i [] ms = Inr ms"
| "match_inverted objs w2o wordId i (oid # oids) ms =
     (if qmultimap_count_pair w2o wordId oid = 1 then
        (case qmap_find ms oid of
           None \<Rightarrow> Inl EndIterator
         | Some mm \<Rightarrow>
            (case qmap_find objs oid of
               None \<Rightarrow> Inl NullSignature
             | Some obj \<Rightarrow>
                 match_inverted objs w2o wordId i oids
                   (qmap_insert oid
                      (qmultimap_insert (qmultimap_value (obj_words obj) wordId 0) i mm) ms)))
      else match_inverted objs w2o wordId i oids ms)"

text \<open>
  \<^verbatim>\<open>dataRange_.lowerBound(i)\<close> with the object id it holds and the first row of that
  object (\<open>0\<close> at \<^verbatim>\<open>begin()\<close>, else the previous key plus one); \<open>None\<close> is \<^verbatim>\<open>end()\<close>.
\<close>

fun dataRange_lowerBound :: "(int \<times> int) list \<Rightarrow> int \<Rightarrow> int \<Rightarrow> (int \<times> int) option" where
  "dataRange_lowerBound [] i f = None"
| "dataRange_lowerBound (p # m) i f =
     (if i \<le> fst p then Some (snd p, f) else dataRange_lowerBound m i (fst p + 1))"

definition match_direct ::
  "(int \<times> int) list \<Rightarrow> (int \<times> int) list \<Rightarrow> int \<Rightarrow> int \<Rightarrow>
   (int \<times> (int \<times> int) list) list \<Rightarrow> failure + (int \<times> (int \<times> int) list) list" where
  "match_direct drange words wordId i ms =
     (case dataRange_lowerBound drange i 0 of
        None \<Rightarrow> Inl EndIterator
      | Some b \<Rightarrow>
         (if qmultimap_count words wordId = 1 then
            (case qmap_find ms (fst b) of
               None \<Rightarrow> Inl EndIterator
             | Some mm \<Rightarrow>
                 Inr (qmap_insert (fst b)
                        (qmultimap_insert (i - snd b) (qmultimap_value words wordId 0) mm) ms))
          else Inr ms))"

text \<open>The loop over the rows of \<^verbatim>\<open>dists\<close> in the single-matrix branch.\<close>

fun match_rows ::
  "'d FindObject \<Rightarrow> 'd Vocabulary \<Rightarrow> (int \<times> int) list \<Rightarrow> (int \<times> real) list list \<Rightarrow> int \<Rightarrow>
   (int \<times> (int \<times> int) list) list \<times> real \<times> real \<Rightarrow>
   failure + ((int \<times> (int \<times> int) list) list \<times> real \<times> real)" where
  "match_rows st v words [] i acc = Inr acc"
| "match_rows st v words (r # rs) i acc =
     (let mn = min_update (fst (snd acc)) (snd (r ! 0));
          mx = max_update (snd (snd acc)) (snd (r ! 0));
          wordId = fst (r ! 0)
      in case (if row_matched (settings st) r then
                 (if General_invertedSearch (settings st)
                  then match_inverted (objects st) (wordToObjects v) wordId i
                         (qmultimap_values (wordToObjects v) wordId) (fst acc)
                  else match_direct (dataRange st) words wordId i (fst acc))
               else Inr (fst acc)) of
           Inl e \<Rightarrow> Inl e
         | Inr ms \<Rightarrow> match_rows st v words rs (i + 1) (ms, mn, mx))"

text \<open>
  \<^verbatim>\<open>consistentNNData\<close>. \<^verbatim>\<open>wordToObjects().begin().value()\<close> is read whenever the
  vocabulary has a size; on an empty map that is \<^verbatim>\<open>end()\<close>.
\<close>

definition consistentNNData :: "Settings \<Rightarrow> 'd Vocabulary \<Rightarrow> failure + bool" where
  "consistentNNData cfg v =
     (if Vocabulary_size v \<noteq> 0 then
        (case wordToObjects v of
           [] \<Rightarrow> Inl EndIterator
         | p # _ \<Rightarrow> Inr ((snd p \<noteq> - 1 \<and> General_invertedSearch cfg)
                         \<or> (snd p = - 1 \<and> \<not> General_invertedSearch cfg)))
      else Inr (\<not> General_invertedSearch cfg))"

text \<open>
  The index of the scene: in the non-inverted mode the vocabulary is cleared and
  rebuilt from the scene descriptors, and \<^verbatim>\<open>update()\<close> runs only when
  \<^verbatim>\<open>vocabularyIncremental\<close> is off. The result is \<^verbatim>\<open>words\<close> and the vocabulary that the
  searches of this call of \<^verbatim>\<open>detect\<close> are run on.
\<close>

definition detect_index ::
  "'d Nearest \<Rightarrow> Settings \<Rightarrow> 'd Vocabulary \<Rightarrow> 'd Mat \<Rightarrow>
   failure + ((int \<times> int) list \<times> 'd Vocabulary)" where
  "detect_index nn cfg v sceneDesc =
     (if \<not> General_invertedSearch cfg then
        (case Vocabulary_addWords nn cfg (Vocabulary_clear v) sceneDesc (- 1)
                (General_vocabularyIncremental cfg) of
           Inl e \<Rightarrow> Inl e
         | Inr r \<Rightarrow>
            (if \<not> General_vocabularyIncremental cfg
             then (case Vocabulary_update (snd r) of
                     Inl e \<Rightarrow> Inl e
                   | Inr v' \<Rightarrow> Inr (fst r, v'))
             else Inr r))
      else Inr ([], v))"

text \<open>The matching stage proper, from \<^verbatim>\<open>success = true\<close> to \<^verbatim>\<open>kTimeMatching\<close>.\<close>

definition detect_match ::
  "'d Nearest \<Rightarrow> ('img, 'd) Pipeline \<Rightarrow> 'd FindObject \<Rightarrow> 'd DetectionInfo \<Rightarrow>
   failure + ('d DetectionInfo \<times> 'd FindObject)" where
  "detect_match nn px st info =
     (let cfg = settings st
      in case detect_index nn cfg (vocabulary st) (sceneDescriptors info) of
           Inl e \<Rightarrow> Inl e
         | Inr r \<Rightarrow>
            (let words = fst r; v = snd r;
                 ms0 = fold (\<lambda>k m. qmap_insert k [] m) (qmap_keys (objects st)) (matches info);
                 acc0 = (ms0, minMatchedDistance info, maxMatchedDistance info);
                 k = search_k cfg
             in case (if General_invertedSearch cfg \<or> General_threads cfg = 1 then
                        match_rows st v words
                          (search_output nn px v
                             (if \<not> General_invertedSearch cfg
                              then snd (hd (objectsDescriptors st))
                              else sceneDescriptors info) k)
                          0 acc0
                      else match_threads nn px cfg v words (objectsDescriptors st) acc0) of
                  Inl e \<Rightarrow> Inl e
                | Inr a \<Rightarrow>
                    Inr (info\<lparr>matches := fst a, minMatchedDistance := fst (snd a),
                              maxMatchedDistance := snd (snd a)\<rparr>,
                         st\<lparr>vocabulary := v\<rparr>)))"

text \<open>
  \<^verbatim>\<open>bool FindObject::detect(image, info)\<close> up to the end of the matching stage: the
  flag it returns, \<^verbatim>\<open>info\<close>, and the state it leaves. The homography stage that
  follows under \<^verbatim>\<open>homographyComputed\<close> reads \<^verbatim>\<open>info.matches_\<close> and changes neither
  the flag nor the members of \<^verbatim>\<open>FindObject\<close>.
\<close>

definition detect ::
  "'d Nearest \<Rightarrow> ('img, 'd) Pipeline \<Rightarrow> 'd FindObject \<Rightarrow> 'img \<Rightarrow>
   failure + (bool \<times> 'd DetectionInfo \<times> 'd FindObject)" where
  "detect nn px st img =
     (if image_empty px img then Inr (False, DetectionInfo_new, st)
      else
        (let kps0 = detector_detect px img;
             emptyScene = (length kps0 = 0);
             maxFeatures = Feature2D_3MaxFeatures (settings st);
             ext = (if length kps0 \<noteq> 0
                    then extractor_compute px img
                           (if maxFeatures > 0 \<and> int (length kps0) > maxFeatures
                            then limitKeypoints kps0 maxFeatures else kps0)
                    else (kps0, Mat_new));
             info = DetectionInfo_new\<lparr>sceneKeypoints := fst ext, sceneDescriptors := snd ext\<rparr>
         in case consistentNNData (settings st) (vocabulary st) of
              Inl e \<Rightarrow> Inl e
            | Inr consistent \<Rightarrow>
               (if objectsDescriptors st \<noteq> [] \<and> length (fst ext) \<noteq> 0 \<and> consistent
                   \<and> mat_cols (snd (hd (objectsDescriptors st))) = mat_cols (snd ext)
                   \<and> mat_type (snd (hd (objectsDescriptors st))) = mat_type (snd ext)
                then (case detect_match nn px st info of
                        Inl e \<Rightarrow> Inl e
                      | Inr r \<Rightarrow> Inr (True, fst r, snd r))
                else if objectsDescriptors st \<noteq> [] \<and> length (fst ext) \<noteq> 0
                then Inr (False, info, st)
                else if emptyScene then Inr (True, info, st)
                else Inr (False, info, st))))"

subsection \<open>The multi-detection block of the homography stage\<close>

text \<open>
  \<^verbatim>\<open>DetectionInfo::RejectedCode\<close>, by the names the sources use, and a \<^verbatim>\<open>QTransform\<close>
  by its nine entries; \<^verbatim>\<open>m31\<close> and \<^verbatim>\<open>m32\<close> are the translation.
\<close>

datatype RejectedCode =
    kRejectedUndef
  | kRejectedLowMatches
  | kRejectedLowInliers
  | kRejectedAllInliers
  | kRejectedNotValid
  | kRejectedByAngle
  | kRejectedSuperposed
  | kRejectedCornersOutside





subsection \<open>\<^verbatim>\<open>updateObjects\<close>\<close>

text \<open>
  \<^verbatim>\<open>ExtractFeaturesThread::run\<close>: the detector, \<^verbatim>\<open>limitKeypoints\<close> above
  \<^verbatim>\<open>maxFeatures\<close>, then the extractor; the keypoints and the descriptors the worker
  holds afterwards. Without keypoints the descriptors stay \<^verbatim>\<open>cv::Mat()\<close>.
\<close>

definition ExtractFeaturesThread_run ::
  "('img, 'd) Pipeline \<Rightarrow> Settings \<Rightarrow> 'img \<Rightarrow> KeyPoint list \<times> 'd Mat" where
  "ExtractFeaturesThread_run px cfg img =
     (let kps0 = detector_detect px img; maxFeatures = Feature2D_3MaxFeatures cfg
      in if length kps0 \<noteq> 0
         then extractor_compute px img
                (if maxFeatures > 0 \<and> int (length kps0) > maxFeatures
                 then limitKeypoints kps0 maxFeatures else kps0)
         else (kps0, Mat_new))"

text \<open>
  \<^verbatim>\<open>ObjSignature::setData\<close> (the header is not among the sources): the signature takes
  the keypoints and the descriptors it is given.
\<close>

definition ObjSignature_setData :: "KeyPoint list \<times> 'd Mat \<Rightarrow> 'd ObjSignature \<Rightarrow> 'd ObjSignature" where
  "ObjSignature_setData r obj = obj\<lparr>obj_keypoints := fst r, obj_descriptors := snd r\<rparr>"

text \<open>
  The join loop of one batch: a worker is a pair of its \<^verbatim>\<open>objectId()\<close> and what it
  extracted; \<^verbatim>\<open>objects_.value(id)\<close> of an absent id is a null pointer.
\<close>

fun setData_threads ::
  "(int \<times> KeyPoint list \<times> 'd Mat) list \<Rightarrow> (int \<times> 'd ObjSignature) list \<Rightarrow>
   failure + (int \<times> 'd ObjSignature) list" where
  "setData_threads [] objs = Inr objs"
| "setData_threads (t # ts) objs =
     (case qmap_find objs (fst t) of
        None \<Rightarrow> Inl NullSignature
      | Some obj \<Rightarrow>
          setData_threads ts (qmap_insert (fst t) (ObjSignature_setData (snd t) obj) objs))"

text \<open>The batches of \<open>n\<close> workers, joined in the order they were started.\<close>

function extract_batches ::
  "nat \<Rightarrow> (int \<times> KeyPoint list \<times> 'd Mat) list \<Rightarrow> (int \<times> 'd ObjSignature) list \<Rightarrow>
   failure + (int \<times> 'd ObjSignature) list" where
  "extract_batches n ts objs =
     (if ts = [] \<or> n = 0 then Inr objs
      else (case setData_threads (take n ts) objs of
              Inl e \<Rightarrow> Inl e
            | Inr objs' \<Rightarrow> extract_batches n (drop n ts) objs'))"
  by pat_completeness auto
termination
  by (relation "measure (\<lambda>(n, ts, objs). length ts)") auto

text \<open>
  \<^verbatim>\<open>FindObject::updateObjects\<close>: one worker per signature of the library, on the image of
  that signature. The image is not in the record: \<open>images i\<close> is the image of the
  signature stored under the id \<open>i\<close>. With a negative \<^verbatim>\<open>threads\<close> setting the outer
  loop starts no worker and steps backwards for ever.
\<close>

definition updateObjects ::
  "('img, 'd) Pipeline \<Rightarrow> (int \<Rightarrow> 'img) \<Rightarrow> 'd FindObject \<Rightarrow> failure + 'd FindObject" where
  "updateObjects px images st =
     (if objects st \<noteq> [] then
        (let threadCounts = (if General_threads (settings st) = 0 then int (length (objects st))
                             else General_threads (settings st));
             objectsList = qmap_values (objects st);
             threads = map (\<lambda>obj. (obj_id obj,
                                    ExtractFeaturesThread_run px (settings st) (images (obj_id obj))))
                         objectsList
         in if threadCounts \<le> 0 then Inl LoopDiverges
            else (case extract_batches (nat threadCounts) threads (objects st) of
                    Inl e \<Rightarrow> Inl e
                  | Inr objs \<Rightarrow> Inr (st\<lparr>objects := objs\<rparr>)))
      else Inr st)"

subsection \<open>Sequences of calls\<close>

text \<open>A \<^verbatim>\<open>FindObject\<close> as its constructor leaves it, under given settings.\<close>

definition FindObject_new :: "Settings \<Rightarrow> 'd FindObject" where
  "FindObject_new cfg =
     \<lparr>objects = [], vocabulary = Vocabulary_new, objectsDescriptors = [], dataRange = [],
      settings = cfg\<rparr>"

text \<open>
  What a client does with a \<^verbatim>\<open>FindObject\<close>: the calls of the class that change its
  members, each with what it takes from outside, and a change of the settings between
  two calls. \<^verbatim>\<open>loadObjects\<close> is a sequence of these: \<^verbatim>\<open>addObject\<close> per file, then
  \<^verbatim>\<open>updateObjects\<close> and \<^verbatim>\<open>updateVocabulary\<close>.
\<close>

datatype ('img, 'd) Call =
    Call_addObject "'d ObjSignature"
  | Call_removeObject int
  | Call_removeAllObjects
  | Call_updateObjects "('img, 'd) Pipeline" "int \<Rightarrow> 'img"
  | Call_updateVocabulary "'d Nearest"
  | Call_detect "'d Nearest" "('img, 'd) Pipeline" 'img
  | Call_settings Settings

text \<open>The state a call leaves when it returns.\<close>

fun FindObject_call :: "('img, 'd) Call \<Rightarrow> 'd FindObject \<Rightarrow> failure + 'd FindObject" where
  "FindObject_call (Call_addObject obj) st = Inr (snd (addObject st obj))"
| "FindObject_call (Call_removeObject ident) st = Inr (removeObject st ident)"
| "FindObject_call Call_removeAllObjects st = Inr (removeAllObjects st)"
| "FindObject_call (Call_updateObjects px images) st = updateObjects px images st"
| "FindObject_call (Call_updateVocabulary nn) st = updateVocabulary nn st"
| "FindObject_call (Call_detect nn px img) st =
     (case detect nn px st img of Inl e \<Rightarrow> Inl e | Inr r \<Rightarrow> Inr (snd (snd r)))"
| "FindObject_call (Call_settings cfg) st = Inr (st\<lparr>settings := cfg\<rparr>)"

fun FindObject_calls :: "('img, 'd) Call list \<Rightarrow> 'd FindObject \<Rightarrow> failure + 'd FindObject" where
  "FindObject_calls [] st = Inr st"
| "FindObject_calls (c # cs) st =
     (case FindObject_call c st of
        Inl e \<Rightarrow> Inl e
      | Inr st' \<Rightarrow> FindObject_calls cs st')"

text \<open>
  The contract of a \<^verbatim>\<open>cv::DescriptorExtractor\<close>: \<^verbatim>\<open>descriptorSize()\<close> and
  \<^verbatim>\<open>descriptorType()\<close> are fixed, so the descriptors it computes share their width and
  element type.
\<close>

definition extractor_uniform :: "('img, 'd) Pipeline \<Rightarrow> bool" where
  "extractor_uniform px =
     (\<forall>img kps img' kps'.
        \<not> Mat_empty (snd (extractor_compute px img kps))
        \<and> \<not> Mat_empty (snd (extractor_compute px img' kps')) \<longrightarrow>
        mat_cols (snd (extractor_compute px img kps)) = mat_cols (snd (extractor_compute px img' kps'))
        \<and> mat_type (snd (extractor_compute px img kps)) = mat_type (snd (extractor_compute px img' kps')))"

fun call_uniform :: "('img, 'd) Call \<Rightarrow> bool" where
  "call_uniform (Call_updateObjects px images) = extractor_uniform px"
| "call_uniform c = True"

text \<open>
  \<^verbatim>\<open>objects_\<close> is keyed by the ids of its signatures, in ascending order of the keys;
  no two non-empty descriptor matrices of a list of signatures differ in width or type.
\<close>

definition objects_keyed :: "(int \<times> 'd ObjSignature) list \<Rightarrow> bool" where
  "objects_keyed m = (sorted_wrt (<) (map fst m) \<and> (\<forall>p\<in>set m. obj_id (snd p) = fst p))"

definition descriptors_consistent :: "'d ObjSignature list \<Rightarrow> bool" where
  "descriptors_consistent objs = (\<forall>a\<in>set objs. \<forall>b\<in>set objs. \<not> descriptors_mismatch a b)"

text \<open>
  What every sequence of calls keeps: the library is keyed by its ids, and either its
  descriptors are consistent or the three stores are cleared.
\<close>

definition library_inv :: "'d FindObject \<Rightarrow> bool" where
  "library_inv st =
     (objects_keyed (objects st)
      \<and> (descriptors_consistent (qmap_values (objects st)) \<or> library_cleared st))"

subsection \<open>Concrete inputs\<close>

definition kpA :: KeyPoint where
  "kpA = \<lparr>pt_x = 10, pt_y = 10, kp_size = 1, kp_angle = 0, response = 1, octave = 0, class_id = - 1\<rparr>"

definition kpB :: KeyPoint where
  "kpB = \<lparr>pt_x = 20, pt_y = 20, kp_size = 1, kp_angle = 0, response = - 1, octave = 0, class_id = - 1\<rparr>"

definition kpC :: KeyPoint where
  "kpC = \<lparr>pt_x = 30, pt_y = 30, kp_size = 1, kp_angle = 0, response = 2, octave = 0, class_id = - 1\<rparr>"

text \<open>Settings: non-inverted search, one worker per object, no matching criterion.\<close>

definition cfg0 :: Settings where
  "cfg0 =
     \<lparr>General_nextObjID = 1, General_invertedSearch = False, General_threads = 0,
      General_vocabularyIncremental = False, General_vocabularyUpdateMinWords = 2000,
      General_multiDetection = True, General_multiDetectionRadius = 30,
      Feature2D_3MaxFeatures = 0,
      NearestNeighbor_3nndrRatioUsed = False, NearestNeighbor_4nndrRatio = 4 / 5,
      NearestNeighbor_5minDistanceUsed = False, NearestNeighbor_6minDistance = 8 / 5\<rparr>"


text \<open>
  Binary descriptors (type code 0, 32 columns); a row is named by a number. The scene
  has two keypoints and two descriptor rows.
\<close>

definition desc_rows :: "nat list \<Rightarrow> nat Mat" where
  "desc_rows rs = \<lparr>mat_cols = 32, mat_type = 0, mat_data = rs\<rparr>"

definition px0 :: "(unit, nat) Pipeline" where
  "px0 =
     \<lparr>image_empty = (\<lambda>_. False),
      detector_detect = (\<lambda>_. [kpA, kpB]),
      extractor_compute = (\<lambda>_ kps. (kps, desc_rows [100, 101])),
      unwritten = (\<lambda>n. replicate n [(0, 0)])\<rparr>"

text \<open>
  A search that finds row 1 of the index at distance \<open>1/2\<close> for every query, and a
  linear scan of the staging block that finds its row 0 at distance 3.
\<close>

definition nn0 :: "nat Nearest" where
  "nn0 = \<lparr>knnSearch = (\<lambda>data q k. replicate k (1, 1 / 2)),
          linearSearch = (\<lambda>data q k. replicate k (0, 3))\<rparr>"

text \<open>Object 5 with one descriptor row, object 6 without features.\<close>

definition obj5 :: "nat ObjSignature" where
  "obj5 = \<lparr>obj_id = 5, obj_keypoints = [kpC], obj_descriptors = desc_rows [200], obj_words = []\<rparr>"

definition obj6 :: "nat ObjSignature" where
  "obj6 = \<lparr>obj_id = 6, obj_keypoints = [], obj_descriptors = Mat_new, obj_words = []\<rparr>"

text \<open>
  The library of object 5 after \<^verbatim>\<open>updateVocabulary\<close>, with one worker per object
  (\<^verbatim>\<open>threads = 0\<close>) and with a single thread.
\<close>

definition library_5 :: "Settings \<Rightarrow> nat FindObject" where
  "library_5 cfg =
     (case updateVocabulary nn0 (snd (addObject (FindObject_new cfg) obj5)) of
        Inr st \<Rightarrow> st | Inl e \<Rightarrow> FindObject_new cfg)"

definition library_56 :: "Settings \<Rightarrow> nat FindObject" where
  "library_56 cfg =
     (case updateVocabulary nn0
             (snd (addObject (snd (addObject (FindObject_new cfg) obj5)) obj6)) of
        Inr st \<Rightarrow> st | Inl e \<Rightarrow> FindObject_new cfg)"

text \<open>Non-inverted search on a single thread, with the incremental vocabulary switched on.\<close>

definition cfg_incremental :: Settings where
  "cfg_incremental = cfg0\<lparr>General_threads := 1, General_vocabularyIncremental := True\<rparr>"

text \<open>
  Inverted search. Objects 5 and 7 with one descriptor row each, before and after
  \<^verbatim>\<open>updateVocabulary\<close>.
\<close>

definition cfg_inverted :: Settings where
  "cfg_inverted = cfg0\<lparr>General_invertedSearch := True\<rparr>"

definition obj7 :: "nat ObjSignature" where
  "obj7 = \<lparr>obj_id = 7, obj_keypoints = [kpA], obj_descriptors = desc_rows [300], obj_words = []\<rparr>"

definition library_57_added :: "nat FindObject" where
  "library_57_added = snd (addObject (snd (addObject (FindObject_new cfg_inverted) obj5)) obj7)"

definition library_57 :: "nat FindObject" where
  "library_57 =
     (case updateVocabulary nn0 library_57_added of
        Inr st \<Rightarrow> st | Inl e \<Rightarrow> FindObject_new cfg_inverted)"

text \<open>
  A search that returns the first \<open>k\<close> rows of its data, at the distances 0, 1, ...;
  the vocabulary after the incremental \<^verbatim>\<open>addWords\<close> of three descriptor rows for
  object 5, and after the \<^verbatim>\<open>update()\<close> that follows.
\<close>

definition nn_first :: "nat Nearest" where
  "nn_first =
     \<lparr>knnSearch = (\<lambda>data q k. map (\<lambda>j. (int j, real j)) [0..<min k (length data)]),
      linearSearch = (\<lambda>data q k. map (\<lambda>j. (int j, real j)) [0..<min k (length data)])\<rparr>"

definition vocab_3 :: "nat Vocabulary" where
  "vocab_3 =
     (case Vocabulary_addWords nn_first cfg0 (Vocabulary_clear Vocabulary_new)
             (desc_rows [1, 2, 3]) 5 True of
        Inr r \<Rightarrow> snd r | Inl e \<Rightarrow> Vocabulary_new)"

definition vocab_3_updated :: "nat Vocabulary" where
  "vocab_3_updated = (case Vocabulary_update vocab_3 of Inr u \<Rightarrow> u | Inl e \<Rightarrow> Vocabulary_new)"

text \<open>A cleared vocabulary after the non-incremental \<^verbatim>\<open>addWords\<close> of two rows for object 5.\<close>

definition vocab_bulk :: "nat Vocabulary" where
  "vocab_bulk =
     (case Vocabulary_addWords nn0 cfg0 (Vocabulary_clear Vocabulary_new) (desc_rows [1, 2]) 5 False of
        Inr r \<Rightarrow> snd r | Inl e \<Rightarrow> Vocabulary_new)"

text \<open>
  Object 3 with one descriptor row; the library after \<^verbatim>\<open>addObject\<close> of it on a fresh
  \<^verbatim>\<open>FindObject\<close>, after \<^verbatim>\<open>addObject(image, 2)\<close> on top of that, and after
  \<^verbatim>\<open>addObject(image, 0)\<close> on top of both.
\<close>

definition obj3 :: "nat ObjSignature" where
  "obj3 = \<lparr>obj_id = 3, obj_keypoints = [kpC], obj_descriptors = desc_rows [200], obj_words = []\<rparr>"

definition library_3 :: "nat FindObject" where
  "library_3 = snd (addObject (FindObject_new cfg0) obj3)"

definition library_32 :: "nat FindObject" where
  "library_32 = snd (addObject_image library_3 2)"

definition library_320 :: "nat FindObject" where
  "library_320 = snd (addObject_image library_32 0)"

text \<open>
  Object 8 with one descriptor row of 64 columns. A client adds object 5, builds the
  vocabulary, extracts the features of the library again, runs a detection and adds
  object 8.
\<close>

definition obj8 :: "nat ObjSignature" where
  "obj8 = \<lparr>obj_id = 8, obj_keypoints = [kpA],
           obj_descriptors = \<lparr>mat_cols = 64, mat_type = 0, mat_data = [301]\<rparr>, obj_words = []\<rparr>"

definition calls_58 :: "(unit, nat) Call list" where
  "calls_58 =
     [Call_addObject obj5, Call_updateVocabulary nn0, Call_updateObjects px0 (\<lambda>i. ()),
      Call_detect nn0 px0 (), Call_addObject obj8]"

definition library_58 :: "nat FindObject" where
  "library_58 =
     (case FindObject_calls calls_58 (FindObject_new cfg_inverted) of
        Inr st \<Rightarrow> st | Inl e \<Rightarrow> FindObject_new cfg_inverted)"

section \<open>Properties\<close>

subsection \<open>\<^verbatim>\<open>limitKeypoints\<close>\<close>

lemma set_multimap_insert: "set (multimap_insert p m) = insert p (set m)"
  by (induction m) auto

lemma length_multimap_insert: "length (multimap_insert p m) = Suc (length m)"
  by (induction m) auto

lemma sorted_multimap_insert:
  "sorted_wrt resp_before m \<Longrightarrow> \<forall>q\<in>set m. snd q < i \<Longrightarrow>
   sorted_wrt resp_before (multimap_insert (r, i) m)"
proof (induction m)
  case Nil
  then show ?case by simp
next
  case (Cons q qs)
  show ?case
  proof (cases "r < fst q")
    case True
    have "\<forall>x\<in>set (q # qs). resp_before (r, i) x"
    proof
      fix x assume x: "x \<in> set (q # qs)"
      have "x = q \<or> resp_before q x" using x Cons.prems(1) by auto
      then have "fst q \<le> fst x" by (auto simp: resp_before_def)
      with True show "resp_before (r, i) x" by (simp add: resp_before_def)
    qed
    with True Cons.prems(1) show ?thesis by simp
  next
    case False
    have a: "sorted_wrt resp_before (multimap_insert (r, i) qs)"
      using Cons by simp
    have b: "resp_before q (r, i)"
      using False Cons.prems(2) by (auto simp: resp_before_def)
    have c: "\<forall>x\<in>set qs. resp_before q x" using Cons.prems(1) by simp
    from False a b c show ?thesis by (simp add: set_multimap_insert)
  qed
qed

lemma reponseMap_fill_props:
  "sorted_wrt resp_before m \<Longrightarrow> \<forall>q\<in>set m. snd q < i \<Longrightarrow>
   sorted_wrt resp_before (reponseMap_fill kps i m)
   \<and> set (reponseMap_fill kps i m)
       = set m \<union> {(\<bar>response (kps ! k)\<bar>, i + k) | k. k < length kps}
   \<and> length (reponseMap_fill kps i m) = length m + length kps"
proof (induction kps arbitrary: i m)
  case Nil
  then show ?case by simp
next
  case (Cons kp kps)
  let ?m = "multimap_insert (\<bar>response kp\<bar>, i) m"
  have s: "sorted_wrt resp_before ?m"
    using Cons.prems by (rule sorted_multimap_insert)
  have b: "\<forall>q\<in>set ?m. snd q < Suc i"
    using Cons.prems(2) by (auto simp: set_multimap_insert less_Suc_eq)
  note ih = Cons.IH [OF s b]
  have eq: "insert (\<bar>response kp\<bar>, i) (set m)
              \<union> {(\<bar>response (kps ! k)\<bar>, Suc i + k) | k. k < length kps}
          = set m \<union> {(\<bar>response ((kp # kps) ! k)\<bar>, i + k) | k. k < length (kp # kps)}"
  proof (rule set_eqI)
    fix x
    show "x \<in> insert (\<bar>response kp\<bar>, i) (set m)
              \<union> {(\<bar>response (kps ! k)\<bar>, Suc i + k) | k. k < length kps}
       \<longleftrightarrow> x \<in> set m \<union> {(\<bar>response ((kp # kps) ! k)\<bar>, i + k) | k. k < length (kp # kps)}"
    proof
      assume "x \<in> insert (\<bar>response kp\<bar>, i) (set m)
              \<union> {(\<bar>response (kps ! k)\<bar>, Suc i + k) | k. k < length kps}"
      then consider "x = (\<bar>response kp\<bar>, i)" | "x \<in> set m"
        | k where "k < length kps" "x = (\<bar>response (kps ! k)\<bar>, Suc i + k)" by auto
      then show "x \<in> set m \<union> {(\<bar>response ((kp # kps) ! k)\<bar>, i + k) | k. k < length (kp # kps)}"
      proof cases
        case 1
        then have "0 < length (kp # kps) \<and> x = (\<bar>response ((kp # kps) ! 0)\<bar>, i + 0)" by simp
        then show ?thesis by blast
      next
        case 2
        then show ?thesis by simp
      next
        case 3
        then have "Suc k < length (kp # kps) \<and> x = (\<bar>response ((kp # kps) ! Suc k)\<bar>, i + Suc k)"
          by simp
        then show ?thesis by blast
      qed
    next
      assume "x \<in> set m \<union> {(\<bar>response ((kp # kps) ! k)\<bar>, i + k) | k. k < length (kp # kps)}"
      then consider "x \<in> set m"
        | k where "k < length (kp # kps)" "x = (\<bar>response ((kp # kps) ! k)\<bar>, i + k)" by auto
      then show "x \<in> insert (\<bar>response kp\<bar>, i) (set m)
              \<union> {(\<bar>response (kps ! k)\<bar>, Suc i + k) | k. k < length kps}"
      proof cases
        case 1
        then show ?thesis by simp
      next
        case 2
        show ?thesis
        proof (cases k)
          case 0
          with 2 show ?thesis by simp
        next
          case (Suc k')
          with 2 have "k' < length kps \<and> x = (\<bar>response (kps ! k')\<bar>, Suc i + k')" by simp
          then show ?thesis by blast
        qed
      qed
    qed
  qed
  from ih eq show ?case by (simp add: set_multimap_insert length_multimap_insert)
qed

lemma sorted_wrt_take_drop:
  "sorted_wrt R xs \<Longrightarrow> x \<in> set (take n xs) \<Longrightarrow> y \<in> set (drop n xs) \<Longrightarrow> R x y"
proof -
  assume s: "sorted_wrt R xs" and x: "x \<in> set (take n xs)" and y: "y \<in> set (drop n xs)"
  have "sorted_wrt R (take n xs @ drop n xs)" using s by simp
  then show "R x y" using x y unfolding sorted_wrt_append by blast
qed

lemma reponseMap_final:
  "sorted_wrt resp_before (reponseMap_fill kps 0 [])
   \<and> set (reponseMap_fill kps 0 []) = {(\<bar>response (kps ! k)\<bar>, k) | k. k < length kps}
   \<and> length (reponseMap_fill kps 0 []) = length kps"
  using reponseMap_fill_props [of "[]" 0 kps] by simp

lemma reponseMap_distinct: "distinct (map snd (reponseMap_fill kps 0 []))"
proof -
  let ?m = "reponseMap_fill kps 0 []"
  have "snd ` set ?m = {..<length kps}"
    using reponseMap_final [of kps] by (auto simp: image_iff)
  then have "card (set (map snd ?m)) = length (map snd ?m)"
    using reponseMap_final [of kps] by simp
  then show ?thesis by (rule card_distinct)
qed

text \<open>
  C5, as the code has it. When \<open>maxK > 0\<close> and there are more than \<open>maxK\<close> keypoints,
  \<open>limitKeypoints\<close> returns exactly \<open>maxK\<close> of them, at distinct indices, each with
  \<open>|response|\<close> at least that of every dropped keypoint, in descending order of
  \<open>|response|\<close>; among equal \<open>|response|\<close> the keypoint with the later index is
  preferred and comes first (the map is walked backwards). Otherwise it returns its
  input unchanged.
\<close>

theorem limitKeypoints_keeps_largest:
  "limitKeypoints kps maxK =
     (if maxK > 0 \<and> int (length kps) > maxK
      then map (\<lambda>i. kps ! i) (limitKeypoints_kept kps maxK) else kps)
   \<and> (maxK > 0 \<and> int (length kps) > maxK \<longrightarrow>
        length (limitKeypoints kps maxK) = nat maxK
      \<and> distinct (limitKeypoints_kept kps maxK)
      \<and> (\<forall>i\<in>set (limitKeypoints_kept kps maxK). i < length kps)
      \<and> (\<forall>i\<in>set (limitKeypoints_kept kps maxK). \<forall>j<length kps.
            j \<notin> set (limitKeypoints_kept kps maxK) \<longrightarrow>
              \<bar>response (kps ! j)\<bar> \<le> \<bar>response (kps ! i)\<bar>
              \<and> (\<bar>response (kps ! j)\<bar> = \<bar>response (kps ! i)\<bar> \<longrightarrow> j < i))
      \<and> sorted_wrt (\<lambda>i j. \<bar>response (kps ! j)\<bar> < \<bar>response (kps ! i)\<bar>
                      \<or> (\<bar>response (kps ! j)\<bar> = \<bar>response (kps ! i)\<bar> \<and> j < i))
            (limitKeypoints_kept kps maxK))"
proof -
  let ?m = "reponseMap_fill kps 0 []"
  let ?n = "nat maxK"
  let ?kept = "limitKeypoints_kept kps maxK"
  note fin = reponseMap_final [of kps]
  have srev: "sorted_wrt (\<lambda>p q. resp_before q p) (rev ?m)"
    using fin by (simp add: sorted_wrt_rev)
  have form: "\<And>p. p \<in> set ?m \<Longrightarrow> snd p < length kps \<and> fst p = \<bar>response (kps ! snd p)\<bar>"
    using fin by auto
  have kept_len: "int (length kps) > maxK \<Longrightarrow> length ?kept = ?n"
    using fin by (simp add: limitKeypoints_kept_def)
  have first: "limitKeypoints kps maxK =
     (if maxK > 0 \<and> int (length kps) > maxK then map (\<lambda>i. kps ! i) ?kept else kps)"
    using kept_len by (simp add: limitKeypoints_def Let_def)
  have dist: "distinct ?kept"
  proof -
    have "distinct (map snd (rev ?m))" using reponseMap_distinct [of kps] by (simp add: rev_map [symmetric])
    then have "distinct (take ?n (map snd (rev ?m)))" by (rule distinct_take)
    then show ?thesis by (simp add: limitKeypoints_kept_def take_map)
  qed
  have bound: "\<forall>i\<in>set ?kept. i < length kps"
  proof
    fix i assume "i \<in> set ?kept"
    then obtain p where "p \<in> set (take ?n (rev ?m))" "i = snd p"
      by (auto simp: limitKeypoints_kept_def)
    then have "p \<in> set ?m" using in_set_takeD by fastforce
    with form \<open>i = snd p\<close> show "i < length kps" by simp
  qed
  have dropped: "\<forall>i\<in>set ?kept. \<forall>j<length kps. j \<notin> set ?kept \<longrightarrow>
              \<bar>response (kps ! j)\<bar> \<le> \<bar>response (kps ! i)\<bar>
              \<and> (\<bar>response (kps ! j)\<bar> = \<bar>response (kps ! i)\<bar> \<longrightarrow> j < i)"
  proof (intro ballI allI impI)
    fix i j assume i: "i \<in> set ?kept" and j: "j < length kps" and nj: "j \<notin> set ?kept"
    from i obtain p where p: "p \<in> set (take ?n (rev ?m))" "i = snd p"
      by (auto simp: limitKeypoints_kept_def)
    then have pm: "p \<in> set ?m" using in_set_takeD by fastforce
    have "(\<bar>response (kps ! j)\<bar>, j) \<in> set (rev ?m)" using fin j by auto
    then have "(\<bar>response (kps ! j)\<bar>, j) \<in> set (take ?n (rev ?m)) \<union> set (drop ?n (rev ?m))"
      by (metis append_take_drop_id set_append)
    moreover have "(\<bar>response (kps ! j)\<bar>, j) \<notin> set (take ?n (rev ?m))"
      using nj by (force simp: limitKeypoints_kept_def)
    ultimately have "(\<bar>response (kps ! j)\<bar>, j) \<in> set (drop ?n (rev ?m))" by simp
    with srev p(1) have "resp_before (\<bar>response (kps ! j)\<bar>, j) p"
      by (rule sorted_wrt_take_drop)
    with form [OF pm] p(2)
    show "\<bar>response (kps ! j)\<bar> \<le> \<bar>response (kps ! i)\<bar>
              \<and> (\<bar>response (kps ! j)\<bar> = \<bar>response (kps ! i)\<bar> \<longrightarrow> j < i)"
      by (auto simp: resp_before_def)
  qed
  have ordered: "sorted_wrt (\<lambda>i j. \<bar>response (kps ! j)\<bar> < \<bar>response (kps ! i)\<bar>
                      \<or> (\<bar>response (kps ! j)\<bar> = \<bar>response (kps ! i)\<bar> \<and> j < i)) ?kept"
  proof -
    have t: "sorted_wrt (\<lambda>p q. resp_before q p) (take ?n (rev ?m))"
      using srev by (rule sorted_wrt_take)
    have "sorted_wrt (\<lambda>p q. \<bar>response (kps ! snd q)\<bar> < \<bar>response (kps ! snd p)\<bar>
                      \<or> (\<bar>response (kps ! snd q)\<bar> = \<bar>response (kps ! snd p)\<bar> \<and> snd q < snd p))
            (take ?n (rev ?m))"
    proof (rule sorted_wrt_mono_rel [OF _ t])
      fix p q assume "p \<in> set (take ?n (rev ?m))" "q \<in> set (take ?n (rev ?m))" "resp_before q p"
      moreover from this have "p \<in> set ?m" "q \<in> set ?m" using in_set_takeD by fastforce+
      ultimately show "\<bar>response (kps ! snd q)\<bar> < \<bar>response (kps ! snd p)\<bar>
                      \<or> (\<bar>response (kps ! snd q)\<bar> = \<bar>response (kps ! snd p)\<bar> \<and> snd q < snd p)"
        using form by (auto simp: resp_before_def)
    qed
    then show ?thesis by (simp add: limitKeypoints_kept_def sorted_wrt_map)
  qed
  from first kept_len dist bound dropped ordered show ?thesis
    by (simp add: limitKeypoints_def Let_def)
qed

text \<open>
  Against C5 as stated ("earlier index kept first"): of two keypoints of equal
  \<open>|response|\<close>, the one with the later index is kept.
\<close>

theorem limitKeypoints_tie_counterexample:
  "limitKeypoints [kpA, kpB] 1 = [kpB] \<and> \<bar>response kpA\<bar> = \<bar>response kpB\<bar> \<and> kpA \<noteq> kpB"
  by (simp add: limitKeypoints_def limitKeypoints_kept_def kpA_def kpB_def)

theorem limitKeypoints_keeps_largest_witness:
  "(2::int) > 0 \<and> int (length [kpA, kpB, kpC]) > 2
   \<and> limitKeypoints [kpA, kpB, kpC] 2 = [kpC, kpB]
   \<and> limitKeypoints_kept [kpA, kpB, kpC] 2 = [2, 1]"
  using limitKeypoints_keeps_largest [of "[kpA, kpB, kpC]" 2]
  by (simp add: limitKeypoints_kept_def kpA_def kpB_def kpC_def)

subsection \<open>The library: \<^verbatim>\<open>addObject\<close> and the id counter\<close>

lemma qmap_find_insert: "qmap_find (qmap_insert k v m) k = Some v"
  unfolding qmap_find_def by (induction m) auto

text \<open>
  What holds of the counter. After a successful \<open>addObject\<close> (the id below
  \<^verbatim>\<open>INT_MAX\<close>, so that \<^verbatim>\<open>id + 1\<close> does not overflow) the signature is stored under
  its id and \<^verbatim>\<open>nextObjID\<close> is that id plus one: strictly greater than the added id, and
  greater than before when the id was assigned from the counter.
\<close>

lemma addObject_nextObjID_above_id:
  assumes "addObject st obj = (True, st')"
    and "added_id st obj < 2147483647"
  shows "General_nextObjID (settings st') = added_id st obj + 1
       \<and> added_id st obj < General_nextObjID (settings st')
       \<and> map_option obj_id (qmap_find (objects st') (added_id st obj)) = Some (added_id st obj)
       \<and> (obj_id obj = 0 \<longrightarrow> General_nextObjID (settings st) < General_nextObjID (settings st'))"
proof -
  from assms(1) have ok: "\<not> (obj_id obj \<noteq> 0 \<and> qmap_contains (objects st) (obj_id obj))"
    by (auto simp: addObject_def split: if_splits)
  let ?obj' = "if obj_id obj = 0 then obj\<lparr>obj_id := General_nextObjID (settings st)\<rparr> else obj"
  have idn: "obj_id ?obj' = added_id st obj" by (simp add: added_id_def)
  from assms(1) ok have st': "st' = clearVocabulary
      (st\<lparr>settings := (settings st)\<lparr>General_nextObjID := obj_id ?obj' + 1\<rparr>,
          objects := qmap_insert (obj_id ?obj') ?obj' (objects st)\<rparr>)"
    by (simp add: addObject_def Let_def)
  have nxt: "General_nextObjID (settings st') = added_id st obj + 1"
    unfolding st' idn by (simp add: clearVocabulary_def)
  have stored: "qmap_find (objects st') (added_id st obj) = Some ?obj'"
    unfolding st' idn [symmetric] by (simp add: clearVocabulary_def qmap_find_insert)
  have "map_option obj_id (qmap_find (objects st') (added_id st obj)) = Some (added_id st obj)"
    unfolding stored using idn by simp
  with nxt show ?thesis by (auto simp: added_id_def)
qed

text \<open>
  How the counter comes down: an explicit id that is free and below \<^verbatim>\<open>nextObjID - 1\<close>
  is accepted, and the counter is set to that id plus one, below its value before the
  call.
\<close>

lemma addObject_explicit_id_lowers:
  assumes "obj_id obj \<noteq> 0" and "\<not> qmap_contains (objects st) (obj_id obj)"
    and "obj_id obj < General_nextObjID (settings st) - 1"
  shows "fst (addObject st obj)
       \<and> General_nextObjID (settings (snd (addObject st obj))) = obj_id obj + 1
       \<and> General_nextObjID (settings (snd (addObject st obj))) < General_nextObjID (settings st)"
  using assms by (simp add: addObject_def Let_def clearVocabulary_def)

text \<open>
  An id assigned from the counter is not tested against the library: when the counter
  names a present id, \<open>addObject\<close> of a signature with id 0 returns true and the
  signature that was stored under that id is replaced.
\<close>

lemma addObject_auto_id_untested:
  assumes "obj_id obj = 0"
  shows "fst (addObject st obj)
       \<and> qmap_find (objects (snd (addObject st obj))) (General_nextObjID (settings st))
           = Some (obj\<lparr>obj_id := General_nextObjID (settings st)\<rparr>)"
  using assms by (simp add: addObject_def Let_def clearVocabulary_def qmap_find_insert)

text \<open>
  C6 at a concrete input. Object 3 is in the library and the counter is 4.
  \<^verbatim>\<open>addObject(image, 2)\<close> succeeds and sets the counter to 3, smaller than its value
  before the call. The next \<^verbatim>\<open>addObject(image, 0)\<close> is then given the id 3, which is
  not tested against the library: the call returns true and the signature of object 3,
  with its features, is replaced by the new one. The same id given explicitly is
  refused as a collision.
\<close>

theorem addObject_lowers_nextObjID:
  "General_nextObjID (settings library_3) = 4
   \<and> qmap_find (objects library_3) 3 = Some obj3
   \<and> fst (addObject_image library_3 2)
   \<and> General_nextObjID (settings library_32) = 3
   \<and> qmap_find (objects library_32) 3 = Some obj3
   \<and> \<not> fst (addObject_image library_32 3)
   \<and> fst (addObject_image library_32 0)
   \<and> qmap_keys (objects library_320) = [2, 3]
   \<and> qmap_find (objects library_320) 3
       = Some \<lparr>obj_id = 3, obj_keypoints = [], obj_descriptors = Mat_new, obj_words = []\<rparr>
   \<and> General_nextObjID (settings library_320) = 4"
  by (simp add: library_320_def library_32_def library_3_def obj3_def addObject_image_def
      addObject_def FindObject_new_def clearVocabulary_def cfg0_def qmap_contains_def
      qmap_find_def qmap_keys_def Let_def)

subsection \<open>The vocabulary: the staging invariant\<close>

lemma set_qmultimap_insert: "set (qmultimap_insert k v m) = insert (k, v) (set m)"
  by (induction m) auto

lemma qmultimap_insert_last:
  "\<forall>p\<in>set m. fst p < k \<Longrightarrow> qmultimap_insert k v m = m @ [(k, v)]"
  by (induction m) auto

lemma Mat_push_back_ok:
  assumes "Mat_push_back m e = Inr m'" and "Mat_ok m" and "Mat_ok e"
  shows "Mat_ok m' \<and> mat_data m' = mat_data m @ mat_data e
         \<and> Mat_rows m' = Mat_rows m + Mat_rows e"
proof -
  have "Mat_ok m' \<and> mat_data m' = mat_data m @ mat_data e"
    using assms
    by (auto simp: Mat_push_back_def Mat_ok_def Mat_empty_def split: if_splits)
  then show ?thesis by (simp add: Mat_rows_def)
qed

lemma Mat_push_back_header:
  "Mat_push_back m e = Inr m' \<Longrightarrow> mat_data e \<noteq> [] \<Longrightarrow>
   mat_cols m' = mat_cols e \<and> mat_type m' = mat_type e"
  by (auto simp: Mat_push_back_def split: if_splits)

lemma Mat_push_back_fits:
  "mat_data e = [] \<or> Mat_empty m \<or> (mat_cols m = mat_cols e \<and> mat_type m = mat_type e) \<Longrightarrow>
   \<exists>m'. Mat_push_back m e = Inr m'"
  by (auto simp: Mat_push_back_def)

lemma staging_inv_clear: "staging_inv (Vocabulary_clear v)"
  by (simp add: staging_inv_def Vocabulary_clear_def Vocabulary_size_def Mat_new_def
      Mat_ok_def Mat_rows_def Mat_empty_def)

lemma staging_inv_update:
  assumes inv: "staging_inv v" and run: "Vocabulary_update v = Inr v'"
  shows "staging_inv v' \<and> Mat_rows (notIndexedDescriptors v') = 0
         \<and> notIndexedWordIds v' = []
         \<and> Mat_rows (indexedDescriptors v') = Vocabulary_size v'
         \<and> Vocabulary_size v' = Vocabulary_size v
         \<and> wordToObjects v' = wordToObjects v"
proof (cases "Mat_empty (notIndexedDescriptors v)")
  case True
  with inv have nodata: "mat_data (notIndexedDescriptors v) = []"
    by (auto simp: staging_inv_def Mat_ok_def Mat_empty_def)
  with inv have noids: "notIndexedWordIds v = []"
    by (simp add: staging_inv_def Mat_rows_def)
  have "Vocabulary_update v = Inr (if \<not> Mat_empty (indexedDescriptors v)
        then v\<lparr>flannIndex := mat_data (indexedDescriptors v)\<rparr> else v)"
    using True by (simp add: Vocabulary_update_def)
  with run have v': "v' = (if \<not> Mat_empty (indexedDescriptors v)
        then v\<lparr>flannIndex := mat_data (indexedDescriptors v)\<rparr> else v)"
    by simp
  show ?thesis
    using inv nodata noids unfolding v'
    by (simp add: staging_inv_def Vocabulary_size_def Mat_rows_def)
next
  case False
  with run obtain m where pb: "Mat_push_back (indexedDescriptors v) (notIndexedDescriptors v) = Inr m"
    by (auto simp: Vocabulary_update_def split: sum.splits)
  from inv have ok: "Mat_ok (indexedDescriptors v)" "Mat_ok (notIndexedDescriptors v)"
    by (simp_all add: staging_inv_def)
  note m = Mat_push_back_ok [OF pb ok]
  let ?v1 = "v\<lparr>indexedDescriptors := m, notIndexedDescriptors := Mat_new, notIndexedWordIds := []\<rparr>"
  have "Vocabulary_update v = Inr (if \<not> Mat_empty m then ?v1\<lparr>flannIndex := mat_data m\<rparr> else ?v1)"
    using False pb by (simp add: Vocabulary_update_def)
  with run have v': "v' = (if \<not> Mat_empty m then ?v1\<lparr>flannIndex := mat_data m\<rparr> else ?v1)"
    by simp
  show ?thesis
    using inv m unfolding v'
    by (auto simp: staging_inv_def Vocabulary_size_def Mat_rows_def Mat_new_def Mat_ok_def)
qed

lemma addWords_bulk_row_sel:
  "fst (addWords_bulk_row base oid i acc) = qmultimap_insert (base + int i) (int i) (fst acc)"
  "fst (snd (addWords_bulk_row base oid i acc))
     = qmultimap_insert (base + int i) oid (fst (snd acc))"
  "snd (snd (addWords_bulk_row base oid i acc)) = snd (snd acc) @ [base + int i]"
  by (simp_all add: addWords_bulk_row_def)

lemma addWords_bulk_fold:
  "snd (snd (fold (addWords_bulk_row base oid) [0..<n] acc))
     = snd (snd acc) @ map (\<lambda>i. base + int i) [0..<n]
   \<and> fst ` set (fst (snd (fold (addWords_bulk_row base oid) [0..<n] acc)))
     = fst ` set (fst (snd acc)) \<union> {base ..< base + int n}
   \<and> ((\<forall>p\<in>set (fst acc). fst p < base) \<longrightarrow>
        fst (fold (addWords_bulk_row base oid) [0..<n] acc)
          = fst acc @ map (\<lambda>i. (base + int i, int i)) [0..<n])"
proof (induction n)
  case 0
  then show ?case by simp
next
  case (Suc n)
  let ?r = "fold (addWords_bulk_row base oid) [0..<n] acc"
  have step: "fold (addWords_bulk_row base oid) [0..<Suc n] acc = addWords_bulk_row base oid n ?r"
    by simp
  have ids: "snd (snd (addWords_bulk_row base oid n ?r))
      = snd (snd acc) @ map (\<lambda>i. base + int i) [0..<Suc n]"
    using Suc.IH by (simp add: addWords_bulk_row_sel)
  have "{base..<base + int n} \<union> {base + int n} = {base..<base + int (Suc n)}"
    by auto
  then have keys: "fst ` set (fst (snd (addWords_bulk_row base oid n ?r)))
      = fst ` set (fst (snd acc)) \<union> {base ..< base + int (Suc n)}"
    using Suc.IH by (auto simp: addWords_bulk_row_sel set_qmultimap_insert)
  have words: "fst (addWords_bulk_row base oid n ?r)
          = fst acc @ map (\<lambda>i. (base + int i, int i)) [0..<Suc n]"
    if below: "\<forall>p\<in>set (fst acc). fst p < base"
  proof -
    from Suc.IH below
    have r: "fst ?r = fst acc @ map (\<lambda>i. (base + int i, int i)) [0..<n]" by simp
    have "\<forall>p\<in>set (fst ?r). fst p < base + int n"
      unfolding r using below by auto
    then have "qmultimap_insert (base + int n) (int n) (fst ?r) = fst ?r @ [(base + int n, int n)]"
      by (rule qmultimap_insert_last)
    then show ?thesis by (simp add: addWords_bulk_row_sel r)
  qed
  show ?case unfolding step using ids keys words by blast
qed

lemma staging_inv_addWords_bulk:
  assumes inv: "staging_inv v" and ne: "\<not> Mat_empty d"
    and run: "Vocabulary_addWords nn cfg v d oid False = Inr (w, v')"
  shows "staging_inv v'
       \<and> w = map (\<lambda>i. (Vocabulary_size v + int i, int i)) [0..<length (mat_data d)]
       \<and> notIndexedWordIds v'
           = notIndexedWordIds v @ map (\<lambda>i. Vocabulary_size v + int i) [0..<length (mat_data d)]
       \<and> Mat_rows (notIndexedDescriptors v') = Mat_rows (notIndexedDescriptors v) + Mat_rows d
       \<and> mat_data (notIndexedDescriptors v') = mat_data (notIndexedDescriptors v) @ mat_data d
       \<and> indexedDescriptors v' = indexedDescriptors v
       \<and> flannIndex v' = flannIndex v
       \<and> Vocabulary_size v' = Vocabulary_size v + Mat_rows d
       \<and> mat_cols (notIndexedDescriptors v') = mat_cols d
       \<and> mat_type (notIndexedDescriptors v') = mat_type d"
proof -
  let ?base = "Vocabulary_size v"
  let ?n = "length (mat_data d)"
  let ?acc = "fold (addWords_bulk_row ?base oid) [0..<?n] ([], wordToObjects v, notIndexedWordIds v)"
  from run ne obtain s where pb: "Mat_push_back (notIndexedDescriptors v) d = Inr s"
    by (auto simp: Vocabulary_addWords_def Let_def split: sum.splits)
  have "Vocabulary_addWords nn cfg v d oid False
      = Inr (fst ?acc, v\<lparr>wordToObjects := fst (snd ?acc), notIndexedWordIds := snd (snd ?acc),
                           notIndexedDescriptors := s\<rparr>)"
    using ne pb by (simp add: Vocabulary_addWords_def Let_def Vocabulary_size_def)
  with run have w: "w = fst ?acc"
    and v': "v' = v\<lparr>wordToObjects := fst (snd ?acc), notIndexedWordIds := snd (snd ?acc),
                     notIndexedDescriptors := s\<rparr>"
    by simp_all
  from ne have okd: "Mat_ok d" by (auto simp: Mat_ok_def Mat_empty_def)
  from inv have oks: "Mat_ok (notIndexedDescriptors v)" by (simp add: staging_inv_def)
  note s = Mat_push_back_ok [OF pb oks okd]
  note f = addWords_bulk_fold [of ?base oid ?n "([], wordToObjects v, notIndexedWordIds v)"]
  have ids: "snd (snd ?acc) = notIndexedWordIds v @ map (\<lambda>i. ?base + int i) [0..<?n]"
    using f by simp
  have keys: "fst ` set (fst (snd ?acc)) = {0 ..< ?base + int ?n}"
  proof -
    have "fst ` set (fst (snd ?acc)) = {0 ..< ?base} \<union> {?base ..< ?base + int ?n}"
      using f inv by (simp add: staging_inv_def)
    moreover have "0 \<le> ?base" by (simp add: Vocabulary_size_def Mat_rows_def)
    ultimately show ?thesis by auto
  qed
  have words: "fst ?acc = map (\<lambda>i. (?base + int i, int i)) [0..<?n]"
    using f by simp
  have len: "int (length (notIndexedWordIds v)) = Mat_rows (notIndexedDescriptors v)"
    using inv by (simp add: staging_inv_def)
  have nth: "(notIndexedWordIds v @ map (\<lambda>i. ?base + int i) [0..<?n]) ! k
        = Mat_rows (indexedDescriptors v) + int k"
    if k: "k < length (notIndexedWordIds v) + ?n" for k
  proof (cases "k < length (notIndexedWordIds v)")
    case True
    with inv show ?thesis by (simp add: staging_inv_def nth_append)
  next
    case False
    with k len show ?thesis
      by (simp add: nth_append Vocabulary_size_def Mat_rows_def)
  qed
  have inv': "staging_inv v'"
    unfolding v' staging_inv_def
    using inv s ids keys len nth
    by (simp add: staging_inv_def Vocabulary_size_def Mat_rows_def add.assoc)
  from ne have "mat_data d \<noteq> []" by (simp add: Mat_empty_def)
  note h = Mat_push_back_header [OF pb this]
  show ?thesis
    using inv' w words s ids h unfolding v'
    by (simp add: Vocabulary_size_def Mat_rows_def)
qed

lemma subset_insert_step:
  "X \<subseteq> insert a Y \<union> Z \<Longrightarrow> a \<in> Z' \<Longrightarrow> Z \<subseteq> Z' \<Longrightarrow> X \<subseteq> Y \<union> Z'"
  by auto

lemma subset_right_step: "X \<subseteq> Y \<union> Z \<Longrightarrow> Z \<subseteq> Z' \<Longrightarrow> X \<subseteq> Y \<union> Z'"
  by auto

lemma subset_union_step: "X \<subseteq> Y \<union> Z \<Longrightarrow> Y \<subseteq> W \<Longrightarrow> Z \<subseteq> W \<Longrightarrow> X \<subseteq> W"
  by auto

lemma insert_subset_step: "X = insert a Y \<Longrightarrow> a \<in> W \<Longrightarrow> X \<subseteq> Y \<union> W"
  by auto

lemma fullResults_staging_values:
  "fullResults_staging ids ts fr = Inr fr' \<Longrightarrow> snd ` set fr' \<subseteq> snd ` set fr \<union> set ids"
proof (induction ts arbitrary: fr)
  case Nil
  then show ?case by auto
next
  case (Cons t ts)
  show ?case
  proof (cases "fst t \<ge> 0")
    case True
    show ?thesis
    proof (cases "nat (fst t) < length ids")
      case inb: True
      with True Cons.prems
      have "fullResults_staging ids ts (qmultimap_insert (snd t) (ids ! nat (fst t)) fr) = Inr fr'"
        by simp
      from Cons.IH [OF this]
      have sub: "snd ` set fr' \<subseteq> insert (ids ! nat (fst t)) (snd ` set fr) \<union> set ids"
        by (simp add: set_qmultimap_insert)
      from inb have mem: "ids ! nat (fst t) \<in> set ids" by (rule nth_mem)
      then have "insert (ids ! nat (fst t)) (snd ` set fr) \<union> set ids = snd ` set fr \<union> set ids"
        by (simp add: insert_absorb)
      with sub show ?thesis by simp
    next
      case False
      with True Cons.prems show ?thesis by simp
    qed
  next
    case False
    with Cons.prems have "fullResults_staging ids ts fr = Inr fr'" by simp
    from Cons.IH [OF this] show ?thesis .
  qed
qed

lemma fullResults_index_values:
  "snd ` set (fullResults_index ts fr) \<subseteq> snd ` set fr \<union> {r. 0 \<le> r \<and> r \<in> fst ` set ts}"
proof (induction ts arbitrary: fr)
  case Nil
  then show ?case by simp
next
  case (Cons t ts)
  show ?case
  proof (cases "fst t \<ge> 0")
    case True
    have "snd ` set (fullResults_index ts (qmultimap_insert (snd t) (fst t) fr))
        \<subseteq> snd ` set (qmultimap_insert (snd t) (fst t) fr) \<union> {r. 0 \<le> r \<and> r \<in> fst ` set ts}"
      by (rule Cons.IH)
    then have a: "snd ` set (fullResults_index ts (qmultimap_insert (snd t) (fst t) fr))
        \<subseteq> insert (fst t) (snd ` set fr) \<union> {r. 0 \<le> r \<and> r \<in> fst ` set ts}"
      by (simp add: set_qmultimap_insert)
    have b: "fst t \<in> {r. 0 \<le> r \<and> r \<in> fst ` set (t # ts)}"
      using True by simp
    have c: "{r. 0 \<le> r \<and> r \<in> fst ` set ts} \<subseteq> {r. 0 \<le> r \<and> r \<in> fst ` set (t # ts)}"
      by auto
    have "fullResults_index (t # ts) fr = fullResults_index ts (qmultimap_insert (snd t) (fst t) fr)"
      using True by simp
    with subset_insert_step [OF a b c] show ?thesis by (simp only:)
  next
    case False
    have a: "snd ` set (fullResults_index ts fr)
        \<subseteq> snd ` set fr \<union> {r. 0 \<le> r \<and> r \<in> fst ` set ts}"
      by (rule Cons.IH)
    have c: "{r. 0 \<le> r \<and> r \<in> fst ` set ts} \<subseteq> {r. 0 \<le> r \<and> r \<in> fst ` set (t # ts)}"
      by auto
    have "fullResults_index (t # ts) fr = fullResults_index ts fr"
      using False by simp
    with subset_right_step [OF a c] show ?thesis by (simp only:)
  qed
qed

lemma staging_ids_range:
  assumes "staging_inv v"
  shows "set (notIndexedWordIds v) \<subseteq> {0 ..< Vocabulary_size v}"
proof
  fix w assume "w \<in> set (notIndexedWordIds v)"
  then obtain k where k: "k < length (notIndexedWordIds v)" "w = notIndexedWordIds v ! k"
    by (auto simp: in_set_conv_nth)
  with assms have "w = Mat_rows (indexedDescriptors v) + int k"
    and "int k < Mat_rows (notIndexedDescriptors v)"
    by (auto simp: staging_inv_def)
  then show "w \<in> {0 ..< Vocabulary_size v}"
    by (simp add: Vocabulary_size_def Mat_rows_def)
qed

lemma fullResults_of_values:
  assumes inv: "staging_inv v" and knn: "knn_in_range nn"
    and gs: "gs \<longrightarrow> \<not> Mat_empty (indexedDescriptors v)"
    and run: "fullResults_of nn v gs x = Inr full"
  shows "snd ` set full \<subseteq> {0 ..< Vocabulary_size v}"
proof -
  let ?staging = "notIndexedDescriptors v"
  let ?scan = "fullResults_staging (notIndexedWordIds v)
                 (linearSearch nn (mat_data ?staging) x (if Mat_rows ?staging \<ge> 2 then 2 else 1)) []"
  define loc where "loc = (if Mat_rows ?staging \<noteq> 0 then ?scan else Inr [])"
  have unf: "fullResults_of nn v gs x
      = (case loc of Inl e \<Rightarrow> Inl e
         | Inr fr \<Rightarrow> Inr (if gs
             then fullResults_index (take 2 (knnSearch nn (flannIndex v) x 2)) fr else fr))"
    unfolding loc_def fullResults_of_def ..
  from run obtain fr where loc: "loc = Inr fr"
    and full: "full = (if gs
        then fullResults_index (take 2 (knnSearch nn (flannIndex v) x 2)) fr else fr)"
    unfolding unf by (cases loc) simp_all
  have fr_vals: "snd ` set fr \<subseteq> {0 ..< Vocabulary_size v}"
  proof (cases "Mat_rows ?staging \<noteq> 0")
    case True
    with loc have "?scan = Inr fr" unfolding loc_def by simp
    from fullResults_staging_values [OF this]
    have "snd ` set fr \<subseteq> set (notIndexedWordIds v)" by simp
    then show ?thesis using staging_ids_range [OF inv] by (rule subset_trans)
  next
    case False
    with loc have "fr = []" unfolding loc_def by simp
    then show ?thesis by simp
  qed
  show ?thesis
  proof (cases gs)
    case False
    with fr_vals full show ?thesis by simp
  next
    case True
    with gs inv have fl: "flannIndex v = mat_data (indexedDescriptors v)"
      by (simp add: staging_inv_def)
    let ?ts = "take 2 (knnSearch nn (flannIndex v) x 2)"
    have bound: "fst t < Vocabulary_size v" if t: "t \<in> set ?ts" for t
    proof -
      from t have "t \<in> set (knnSearch nn (flannIndex v) x 2)" by (rule in_set_takeD)
      with knn have "fst t < int (length (flannIndex v))"
        unfolding knn_in_range_def by blast
      with fl show ?thesis by (simp add: Vocabulary_size_def Mat_rows_def)
    qed
    have idx: "{r. 0 \<le> r \<and> r \<in> fst ` set ?ts} \<subseteq> {0 ..< Vocabulary_size v}"
    proof
      fix r assume "r \<in> {r. 0 \<le> r \<and> r \<in> fst ` set ?ts}"
      then obtain t where "0 \<le> r" "t \<in> set ?ts" "r = fst t" by auto
      with bound [of t] show "r \<in> {0 ..< Vocabulary_size v}" by simp
    qed
    from fullResults_index_values [of ?ts fr] fr_vals idx
    have "snd ` set (fullResults_index ?ts fr) \<subseteq> {0 ..< Vocabulary_size v}"
      by (rule subset_union_step)
    with True full show ?thesis by simp
  qed
qed

lemma staging_inv_addWords_row:
  assumes inv: "staging_inv v" and knn: "knn_in_range nn"
    and gs: "gs \<longrightarrow> \<not> Mat_empty (indexedDescriptors v)"
    and ne: "\<not> Mat_empty d"
    and run: "addWords_row nn cfg d oid gs i x (words, v) = Inr (words', v')"
  shows "staging_inv v' \<and> indexedDescriptors v' = indexedDescriptors v
       \<and> flannIndex v' = flannIndex v
       \<and> Vocabulary_size v \<le> Vocabulary_size v'
       \<and> fst ` set words' \<subseteq> fst ` set words \<union> {0 ..< Vocabulary_size v'}"
proof -
  from run obtain full where fo: "fullResults_of nn v gs x = Inr full"
    by (cases "fullResults_of nn v gs x") (simp_all add: addWords_row_def)
  note full_vals = fullResults_of_values [OF inv knn gs fo]
  have nonneg: "0 \<le> Vocabulary_size v" by (simp add: Vocabulary_size_def Mat_rows_def)
  show ?thesis
  proof (cases "nndr_match cfg full")
    case True
    then have "2 \<le> length full" by (simp add: nndr_match_def)
    then have "0 < length full" by linarith
    then have "full ! 0 \<in> set full" by (rule nth_mem)
    then have "snd (full ! 0) \<in> snd ` set full" by (rule imageI)
    with full_vals have best: "snd (full ! 0) \<in> {0 ..< Vocabulary_size v}" by (rule subsetD)
    have "addWords_row nn cfg d oid gs i x (words, v)
        = Inr (qmultimap_insert (snd (full ! 0)) i words,
               v\<lparr>wordToObjects := qmultimap_insert (snd (full ! 0)) oid (wordToObjects v)\<rparr>)"
      using fo True by (simp add: addWords_row_def)
    with run have w': "words' = qmultimap_insert (snd (full ! 0)) i words"
      and v': "v' = v\<lparr>wordToObjects := qmultimap_insert (snd (full ! 0)) oid (wordToObjects v)\<rparr>"
      by simp_all
    have "fst ` set (qmultimap_insert (snd (full ! 0)) oid (wordToObjects v))
        = insert (snd (full ! 0)) (fst ` set (wordToObjects v))"
      by (simp add: set_qmultimap_insert)
    also have "fst ` set (wordToObjects v) = {0 ..< Vocabulary_size v}"
      using inv by (simp add: staging_inv_def)
    also have "insert (snd (full ! 0)) {0 ..< Vocabulary_size v} = {0 ..< Vocabulary_size v}"
      using best by (rule insert_absorb)
    finally have keys: "fst ` set (qmultimap_insert (snd (full ! 0)) oid (wordToObjects v))
        = {0 ..< Vocabulary_size v}" .
    have size: "Vocabulary_size v' = Vocabulary_size v"
      unfolding v' by (simp add: Vocabulary_size_def)
    have i1: "staging_inv v'"
      using inv keys unfolding v' by (simp add: staging_inv_def Vocabulary_size_def)
    have "fst ` set words' = insert (snd (full ! 0)) (fst ` set words)"
      unfolding w' by (simp add: set_qmultimap_insert)
    from this best have i2: "fst ` set words' \<subseteq> fst ` set words \<union> {0 ..< Vocabulary_size v'}"
      unfolding size by (rule insert_subset_step)
    from i1 i2 size show ?thesis unfolding v' by simp
  next
    case False
    let ?w = "Mat_rows (indexedDescriptors v) + Mat_rows (notIndexedDescriptors v)"
    from run fo False obtain s where pb: "Mat_push_back (notIndexedDescriptors v) (Mat_row d x) = Inr s"
      by (cases "Mat_push_back (notIndexedDescriptors v) (Mat_row d x)")
         (simp_all add: addWords_row_def)
    have "addWords_row nn cfg d oid gs i x (words, v)
        = Inr (qmultimap_insert ?w i words,
               v\<lparr>notIndexedWordIds := notIndexedWordIds v @ [?w],
                  notIndexedDescriptors := s,
                  wordToObjects := qmultimap_insert ?w oid (wordToObjects v)\<rparr>)"
      using fo False pb by (simp add: addWords_row_def)
    with run have w': "words' = qmultimap_insert ?w i words"
      and v': "v' = v\<lparr>notIndexedWordIds := notIndexedWordIds v @ [?w],
                  notIndexedDescriptors := s,
                  wordToObjects := qmultimap_insert ?w oid (wordToObjects v)\<rparr>"
      by simp_all
    from ne have okr: "Mat_ok (Mat_row d x)" by (simp add: Mat_ok_def Mat_row_def Mat_empty_def)
    from inv have oks: "Mat_ok (notIndexedDescriptors v)" by (simp add: staging_inv_def)
    note s = Mat_push_back_ok [OF pb oks okr]
    have rows: "Mat_rows s = Mat_rows (notIndexedDescriptors v) + 1"
      using s by (simp add: Mat_rows_def Mat_row_def)
    have size: "Vocabulary_size v' = Vocabulary_size v + 1"
      unfolding v' using rows by (simp add: Vocabulary_size_def)
    have w_eq: "?w = Vocabulary_size v" by (simp add: Vocabulary_size_def)
    have "fst ` set (qmultimap_insert ?w oid (wordToObjects v))
        = insert (Vocabulary_size v) (fst ` set (wordToObjects v))"
      unfolding w_eq by (simp add: set_qmultimap_insert)
    also have "fst ` set (wordToObjects v) = {0 ..< Vocabulary_size v}"
      using inv by (simp add: staging_inv_def)
    also have "insert (Vocabulary_size v) {0 ..< Vocabulary_size v} = {0 ..< Vocabulary_size v + 1}"
      using nonneg by auto
    finally have keys: "fst ` set (qmultimap_insert ?w oid (wordToObjects v))
        = {0 ..< Vocabulary_size v + 1}" .
    have len: "int (length (notIndexedWordIds v)) = Mat_rows (notIndexedDescriptors v)"
      using inv by (simp add: staging_inv_def)
    have nth: "(notIndexedWordIds v @ [?w]) ! k = Mat_rows (indexedDescriptors v) + int k"
      if "k < Suc (length (notIndexedWordIds v))" for k
    proof (cases "k < length (notIndexedWordIds v)")
      case True
      with inv show ?thesis by (simp add: staging_inv_def nth_append)
    next
      case False
      with that have "k = length (notIndexedWordIds v)" by simp
      with len show ?thesis by (simp add: nth_append)
    qed
    have p1: "Mat_ok (indexedDescriptors v')" using inv unfolding v' by (simp add: staging_inv_def)
    have p2: "Mat_ok (notIndexedDescriptors v')" using s unfolding v' by simp
    have p3: "int (length (notIndexedWordIds v')) = Mat_rows (notIndexedDescriptors v')"
      using len rows unfolding v' by simp
    have p4: "\<forall>k < length (notIndexedWordIds v').
        notIndexedWordIds v' ! k = Mat_rows (indexedDescriptors v') + int k"
      using nth unfolding v' by simp
    have p5: "set (map fst (wordToObjects v')) = {0 ..< Vocabulary_size v'}"
      unfolding size using keys unfolding v' by simp
    have p6: "\<not> Mat_empty (indexedDescriptors v') \<longrightarrow>
        flannIndex v' = mat_data (indexedDescriptors v')"
      using inv unfolding v' by (simp add: staging_inv_def)
    from p1 p2 p3 p4 p5 p6 have i1: "staging_inv v'" unfolding staging_inv_def by (intro conjI)
    have e1: "fst ` set words' = insert (Vocabulary_size v) (fst ` set words)"
      unfolding w' w_eq by (simp add: set_qmultimap_insert)
    have e2: "Vocabulary_size v \<in> {0 ..< Vocabulary_size v + 1}" using nonneg by simp
    from e1 e2 have i2: "fst ` set words' \<subseteq> fst ` set words \<union> {0 ..< Vocabulary_size v'}"
      unfolding size by (rule insert_subset_step)
    from i1 i2 size show ?thesis unfolding v' by simp
  qed
qed

lemma subset_range_step:
  "X \<subseteq> Y \<union> {0 ..< b} \<Longrightarrow> Y \<subseteq> Z \<union> {0 ..< a} \<Longrightarrow> a \<le> b \<Longrightarrow> X \<subseteq> Z \<union> {0 ..< (b::int)}"
  by auto

lemma staging_inv_addWords_incremental:
  assumes knn: "knn_in_range nn" and ne: "\<not> Mat_empty d"
  shows "staging_inv v \<Longrightarrow> (gs \<longrightarrow> \<not> Mat_empty (indexedDescriptors v)) \<Longrightarrow>
     addWords_incremental nn cfg d oid gs xs i (words, v) = Inr (words', v') \<Longrightarrow>
     staging_inv v' \<and> indexedDescriptors v' = indexedDescriptors v
     \<and> flannIndex v' = flannIndex v
     \<and> Vocabulary_size v \<le> Vocabulary_size v'
     \<and> fst ` set words' \<subseteq> fst ` set words \<union> {0 ..< Vocabulary_size v'}"
proof (induction xs arbitrary: i words v)
  case Nil
  then show ?case by simp
next
  case (Cons x xs)
  from Cons.prems(3) obtain acc1 where row: "addWords_row nn cfg d oid gs i x (words, v) = Inr acc1"
    and rest: "addWords_incremental nn cfg d oid gs xs (i + 1) acc1 = Inr (words', v')"
    by (cases "addWords_row nn cfg d oid gs i x (words, v)") simp_all
  obtain w1 v1 where acc1: "acc1 = (w1, v1)" by (cases acc1)
  note r = staging_inv_addWords_row [OF Cons.prems(1) knn Cons.prems(2) ne row [unfolded acc1]]
  from r have inv1: "staging_inv v1" and idx1: "indexedDescriptors v1 = indexedDescriptors v"
    and fl1: "flannIndex v1 = flannIndex v" and sz1: "Vocabulary_size v \<le> Vocabulary_size v1"
    and k1: "fst ` set w1 \<subseteq> fst ` set words \<union> {0 ..< Vocabulary_size v1}"
    by simp_all
  from Cons.prems(2) idx1 have gs1: "gs \<longrightarrow> \<not> Mat_empty (indexedDescriptors v1)" by simp
  note t = Cons.IH [OF inv1 gs1 rest [unfolded acc1]]
  from t have inv': "staging_inv v'" and idx': "indexedDescriptors v' = indexedDescriptors v1"
    and fl': "flannIndex v' = flannIndex v1" and sz': "Vocabulary_size v1 \<le> Vocabulary_size v'"
    and k': "fst ` set words' \<subseteq> fst ` set w1 \<union> {0 ..< Vocabulary_size v'}"
    by simp_all
  from k' k1 sz' have "fst ` set words' \<subseteq> fst ` set words \<union> {0 ..< Vocabulary_size v'}"
    by (rule subset_range_step)
  with inv' idx' idx1 fl' fl1 sz1 sz' show ?case by simp
qed

lemma staging_inv_addWords:
  assumes inv: "staging_inv v" and knn: "knn_in_range nn"
    and run: "Vocabulary_addWords nn cfg v d oid incremental = Inr (w, v')"
  shows "staging_inv v' \<and> indexedDescriptors v' = indexedDescriptors v
       \<and> flannIndex v' = flannIndex v
       \<and> Vocabulary_size v \<le> Vocabulary_size v'
       \<and> fst ` set w \<subseteq> {0 ..< Vocabulary_size v'}"
proof (cases "Mat_empty d")
  case True
  with run have "w = []" "v' = v" by (simp_all add: Vocabulary_addWords_def)
  with inv show ?thesis by simp
next
  case False
  show ?thesis
  proof (cases incremental)
    case True
    let ?gs = "\<not> Mat_empty (indexedDescriptors v) \<and> Mat_rows (indexedDescriptors v) \<ge> 2"
    from run False True
    have r: "addWords_incremental nn cfg d oid ?gs (mat_data d) 0 ([], v) = Inr (w, v')"
      by (simp add: Vocabulary_addWords_def)
    have g: "?gs \<longrightarrow> \<not> Mat_empty (indexedDescriptors v)" by simp
    from staging_inv_addWords_incremental [OF knn False inv g r]
    show ?thesis by simp
  next
    case inc: False
    from run inc have r: "Vocabulary_addWords nn cfg v d oid False = Inr (w, v')" by simp
    note b = staging_inv_addWords_bulk [OF inv False r]
    have nonneg: "0 \<le> Vocabulary_size v" by (simp add: Vocabulary_size_def Mat_rows_def)
    from b have w: "w = map (\<lambda>i. (Vocabulary_size v + int i, int i)) [0..<length (mat_data d)]"
      and sz: "Vocabulary_size v' = Vocabulary_size v + Mat_rows d" by simp_all
    have "fst ` set w \<subseteq> {0 ..< Vocabulary_size v'}"
      unfolding w sz using nonneg by (auto simp: Mat_rows_def)
    with b show ?thesis by (simp add: Mat_rows_def)
  qed
qed

lemma Vocabulary_update_total:
  assumes "Mat_empty (indexedDescriptors v) \<or> Mat_empty (notIndexedDescriptors v)
           \<or> (mat_cols (indexedDescriptors v) = mat_cols (notIndexedDescriptors v)
              \<and> mat_type (indexedDescriptors v) = mat_type (notIndexedDescriptors v))"
  shows "\<exists>v'. Vocabulary_update v = Inr v'"
proof (cases "Mat_empty (notIndexedDescriptors v)")
  case True
  then show ?thesis by (simp add: Vocabulary_update_def)
next
  case False
  with assms have "mat_data (notIndexedDescriptors v) = [] \<or> Mat_empty (indexedDescriptors v)
      \<or> (mat_cols (indexedDescriptors v) = mat_cols (notIndexedDescriptors v)
         \<and> mat_type (indexedDescriptors v) = mat_type (notIndexedDescriptors v))"
    by simp
  then obtain m where "Mat_push_back (indexedDescriptors v) (notIndexedDescriptors v) = Inr m"
    using Mat_push_back_fits by blast
  with False show ?thesis by (simp add: Vocabulary_update_def)
qed

text \<open>
  C8. \<open>clear\<close> establishes the staging invariant; \<open>addWords\<close>, in either mode and for
  a search that returns rows of its index, preserves it whenever it returns, leaves the
  indexed block alone and hands back word-ids below the new size; \<open>update\<close> preserves
  it whenever it returns, and then the staging block and its id list are empty and the
  indexed block has as many rows as the vocabulary has words, as many as before.
  \<open>update\<close> does return when one block is empty or both agree in width and type.
\<close>

theorem vocabulary_staging_invariant:
  "staging_inv (Vocabulary_clear v0)
   \<and> (staging_inv v \<and> knn_in_range nn
        \<and> Vocabulary_addWords nn cfg v d oid incremental = Inr (w, v1) \<longrightarrow>
        staging_inv v1 \<and> indexedDescriptors v1 = indexedDescriptors v
        \<and> fst ` set w \<subseteq> {0 ..< Vocabulary_size v1})
   \<and> (staging_inv v \<and> Vocabulary_update v = Inr v2 \<longrightarrow>
        staging_inv v2 \<and> Mat_rows (notIndexedDescriptors v2) = 0 \<and> notIndexedWordIds v2 = []
        \<and> Mat_rows (indexedDescriptors v2) = Vocabulary_size v2
        \<and> Vocabulary_size v2 = Vocabulary_size v)
   \<and> (Mat_empty (indexedDescriptors v) \<or> Mat_empty (notIndexedDescriptors v)
        \<or> (mat_cols (indexedDescriptors v) = mat_cols (notIndexedDescriptors v)
           \<and> mat_type (indexedDescriptors v) = mat_type (notIndexedDescriptors v)) \<longrightarrow>
        (\<exists>v3. Vocabulary_update v = Inr v3))"
proof (intro conjI impI)
  show "staging_inv (Vocabulary_clear v0)" by (rule staging_inv_clear)
next
  assume h: "staging_inv v \<and> knn_in_range nn
        \<and> Vocabulary_addWords nn cfg v d oid incremental = Inr (w, v1)"
  then have a: "staging_inv v" and b: "knn_in_range nn"
    and c: "Vocabulary_addWords nn cfg v d oid incremental = Inr (w, v1)" by simp_all
  from staging_inv_addWords [OF a b c]
  show "staging_inv v1" "indexedDescriptors v1 = indexedDescriptors v"
    "fst ` set w \<subseteq> {0 ..< Vocabulary_size v1}" by simp_all
next
  assume h: "staging_inv v \<and> Vocabulary_update v = Inr v2"
  then have a: "staging_inv v" and b: "Vocabulary_update v = Inr v2" by simp_all
  from staging_inv_update [OF a b]
  show "staging_inv v2" "Mat_rows (notIndexedDescriptors v2) = 0" "notIndexedWordIds v2 = []"
    "Mat_rows (indexedDescriptors v2) = Vocabulary_size v2"
    "Vocabulary_size v2 = Vocabulary_size v" by simp_all
next
  assume "Mat_empty (indexedDescriptors v) \<or> Mat_empty (notIndexedDescriptors v)
        \<or> (mat_cols (indexedDescriptors v) = mat_cols (notIndexedDescriptors v)
           \<and> mat_type (indexedDescriptors v) = mat_type (notIndexedDescriptors v))"
  then show "\<exists>v3. Vocabulary_update v = Inr v3" by (rule Vocabulary_update_total)
qed

theorem vocabulary_staging_invariant_witness:
  "knn_in_range nn_first
   \<and> staging_inv (Vocabulary_clear (Vocabulary_new :: nat Vocabulary))
   \<and> Vocabulary_addWords nn_first cfg0 (Vocabulary_clear Vocabulary_new)
        (desc_rows [1, 2, 3]) 5 True = Inr ([(0, 2), (0, 0), (1, 1)], vocab_3)
   \<and> staging_inv vocab_3
   \<and> notIndexedWordIds vocab_3 = [0, 1]
   \<and> Mat_empty (indexedDescriptors vocab_3)
   \<and> Vocabulary_update vocab_3 = Inr vocab_3_updated
   \<and> staging_inv vocab_3_updated
   \<and> Mat_rows (indexedDescriptors vocab_3_updated) = 2
   \<and> notIndexedWordIds vocab_3_updated = []"
proof -
  let ?v = "Vocabulary_clear (Vocabulary_new :: nat Vocabulary)"
  have knn: "knn_in_range nn_first"
    by (auto simp: knn_in_range_def nn_first_def)
  note t = vocabulary_staging_invariant
  have c: "staging_inv ?v" by (rule t [THEN conjunct1])
  have e: "(case Vocabulary_addWords nn_first cfg0 ?v (desc_rows [1, 2, 3]) 5 True of
              Inr r \<Rightarrow> fst r = [(0, 2), (0, 0), (1, 1)] | Inl e \<Rightarrow> False)"
    by code_simp
  have run: "Vocabulary_addWords nn_first cfg0 ?v (desc_rows [1, 2, 3]) 5 True
               = Inr ([(0, 2), (0, 0), (1, 1)], vocab_3)"
  proof (cases "Vocabulary_addWords nn_first cfg0 ?v (desc_rows [1, 2, 3]) 5 True")
    case (Inl x)
    with e show ?thesis by simp
  next
    case (Inr r)
    with e show ?thesis by (simp add: vocab_3_def prod_eq_iff)
  qed
  note t_add = t [of Vocabulary_new ?v nn_first cfg0 "desc_rows [1, 2, 3]" 5 True
      "[(0, 2), (0, 0), (1, 1)]" vocab_3 vocab_3, THEN conjunct2, THEN conjunct1]
  from c knn run have "staging_inv ?v \<and> knn_in_range nn_first
      \<and> Vocabulary_addWords nn_first cfg0 ?v (desc_rows [1, 2, 3]) 5 True
          = Inr ([(0, 2), (0, 0), (1, 1)], vocab_3)"
    by (intro conjI)
  from t_add [THEN mp, OF this] have i3: "staging_inv vocab_3" by (rule conjunct1)
  have ids: "notIndexedWordIds vocab_3 = [0, 1]" by code_simp
  have em: "Mat_empty (indexedDescriptors vocab_3)" by code_simp
  note t_tot = t [of Vocabulary_new vocab_3 nn_first cfg0 "desc_rows [1, 2, 3]" 5 True
      "[]" vocab_3 vocab_3_updated, THEN conjunct2, THEN conjunct2, THEN conjunct2]
  from em have "Mat_empty (indexedDescriptors vocab_3) \<or> Mat_empty (notIndexedDescriptors vocab_3)
      \<or> (mat_cols (indexedDescriptors vocab_3) = mat_cols (notIndexedDescriptors vocab_3)
         \<and> mat_type (indexedDescriptors vocab_3) = mat_type (notIndexedDescriptors vocab_3))"
    by (rule disjI1)
  from t_tot [THEN mp, OF this] obtain v3 where u: "Vocabulary_update vocab_3 = Inr v3" ..
  then have upd: "Vocabulary_update vocab_3 = Inr vocab_3_updated"
    by (simp add: vocab_3_updated_def)
  note t_upd = t [of Vocabulary_new vocab_3 nn_first cfg0 "desc_rows [1, 2, 3]" 5 True
      "[]" vocab_3 vocab_3_updated, THEN conjunct2, THEN conjunct2, THEN conjunct1]
  from i3 upd have "staging_inv vocab_3 \<and> Vocabulary_update vocab_3 = Inr vocab_3_updated"
    by (intro conjI)
  from t_upd [THEN mp, OF this]
  have i4: "staging_inv vocab_3_updated" and n4: "notIndexedWordIds vocab_3_updated = []"
    and r4: "Mat_rows (indexedDescriptors vocab_3_updated) = Vocabulary_size vocab_3"
    by simp_all
  have "Vocabulary_size vocab_3 = 2" by code_simp
  with r4 have r5: "Mat_rows (indexedDescriptors vocab_3_updated) = 2" by simp
  from knn c run i3 ids em upd i4 r5 n4 show ?thesis by (intro conjI)
qed

subsection \<open>\<^verbatim>\<open>updateVocabulary\<close>: the consistency check\<close>

lemma verify_descriptors_fixed:
  "0 \<le> dm \<Longrightarrow> 0 \<le> ty \<Longrightarrow>
   verify_descriptors objs (count, dm, ty) \<noteq> None \<longleftrightarrow>
     (\<forall>x\<in>set objs. \<not> Mat_empty (obj_descriptors x) \<longrightarrow>
        int (mat_cols (obj_descriptors x)) = dm \<and> int (mat_type (obj_descriptors x)) = ty)"
proof (induction objs arbitrary: count)
  case Nil
  then show ?case by simp
next
  case (Cons x objs)
  show ?case
  proof (cases "Mat_empty (obj_descriptors x)")
    case True
    with Cons show ?thesis by (simp add: Let_def)
  next
    case False
    show ?thesis
    proof (cases "int (mat_cols (obj_descriptors x)) = dm \<and> int (mat_type (obj_descriptors x)) = ty")
      case True
      with False Cons.prems Cons.IH [OF Cons.prems, of "count + Mat_rows (obj_descriptors x)"]
      show ?thesis by (auto simp: Let_def)
    next
      case ne: False
      with False Cons.prems show ?thesis by (auto simp: Let_def)
    qed
  qed
qed

lemma verify_descriptors_start:
  "verify_descriptors objs (count, - 1, - 1) \<noteq> None \<longleftrightarrow>
     (\<forall>a\<in>set objs. \<forall>b\<in>set objs. \<not> descriptors_mismatch a b)"
proof (induction objs arbitrary: count)
  case Nil
  then show ?case by simp
next
  case (Cons x objs)
  show ?case
  proof (cases "Mat_empty (obj_descriptors x)")
    case True
    then have "\<And>y. \<not> descriptors_mismatch x y" "\<And>y. \<not> descriptors_mismatch y x"
      by (simp_all add: descriptors_mismatch_def)
    with True Cons.IH [of count] show ?thesis by (simp add: Let_def)
  next
    case False
    have step: "verify_descriptors (x # objs) (count, - 1, - 1)
        = verify_descriptors objs (count + Mat_rows (obj_descriptors x),
            int (mat_cols (obj_descriptors x)), int (mat_type (obj_descriptors x)))"
      using False by (simp add: Let_def)
    have fixed: "verify_descriptors (x # objs) (count, - 1, - 1) \<noteq> None \<longleftrightarrow>
        (\<forall>y\<in>set objs. \<not> Mat_empty (obj_descriptors y) \<longrightarrow>
           mat_cols (obj_descriptors y) = mat_cols (obj_descriptors x)
           \<and> mat_type (obj_descriptors y) = mat_type (obj_descriptors x))"
      unfolding step by (subst verify_descriptors_fixed) auto
    show ?thesis
      unfolding fixed using False
      by (auto simp: descriptors_mismatch_def)
  qed
qed

text \<open>
  The early return: when two non-empty descriptor matrices of the library differ in
  column count or element type, \<open>updateVocabulary\<close> returns after the check, with the
  three stores as \<^verbatim>\<open>clearVocabulary()\<close> at the head of the call left them. On a state whose
  stores are cleared already that is the state before the call.
\<close>

lemma updateVocabulary_mismatch_returns:
  assumes "a \<in> set (qmap_values (objects st))" and "b \<in> set (qmap_values (objects st))"
    and "descriptors_mismatch a b"
  shows "updateVocabulary nn st = Inr (clearVocabulary st)"
proof -
  have "\<not> (\<forall>a\<in>set (qmap_values (objects st)). \<forall>b\<in>set (qmap_values (objects st)).
            \<not> descriptors_mismatch a b)"
    using assms by blast
  then have none: "verify_descriptors (qmap_values (objects st)) (0, - 1, - 1) = None"
    using verify_descriptors_start [of "qmap_values (objects st)" 0] by blast
  have "objects (clearVocabulary st) = objects st" by (simp add: clearVocabulary_def)
  with none show ?thesis
    by (simp add: updateVocabulary_def Let_def)
qed

lemma library_cleared_clearVocabulary: "library_cleared (clearVocabulary st)"
  by (simp add: library_cleared_def clearVocabulary_def Vocabulary_clear_def)

lemma clearVocabulary_cleared: "library_cleared st \<Longrightarrow> clearVocabulary st = st"
  by (simp add: library_cleared_def clearVocabulary_def Vocabulary_clear_def)

subsection \<open>The library under sequences of calls\<close>

lemma set_qmap_insert_subset: "set (qmap_insert k v m) \<subseteq> insert (k, v) (set m)"
  by (induction m) auto

lemma qmap_insert_mem: "(k, v) \<in> set (qmap_insert k v m)"
  by (induction m) auto

lemma keys_qmap_insert: "fst ` set (qmap_insert k v m) = insert k (fst ` set m)"
  by (induction m) auto

lemma sorted_qmap_insert:
  "sorted_wrt (<) (map fst m) \<Longrightarrow> sorted_wrt (<) (map fst (qmap_insert k v m))"
proof (induction m)
  case Nil
  then show ?case by simp
next
  case (Cons p m)
  from Cons.prems have below: "\<forall>q\<in>set m. fst p < fst q" and rest: "sorted_wrt (<) (map fst m)"
    by simp_all
  show ?case
  proof (cases "k < fst p")
    case True
    with below have "\<forall>q\<in>set m. k < fst q" by auto
    with True Cons.prems show ?thesis by simp
  next
    case False
    show ?thesis
    proof (cases "k = fst p")
      case True
      with Cons.prems show ?thesis by simp
    next
      case ne: False
      with False have lt: "fst p < k" by simp
      have "\<forall>x\<in>fst ` set (qmap_insert k v m). fst p < x"
        unfolding keys_qmap_insert using lt below by simp
      with False ne Cons.IH [OF rest] show ?thesis by simp
    qed
  qed
qed

lemma objects_keyed_distinct: "objects_keyed m \<Longrightarrow> distinct (map fst m)"
  by (simp add: objects_keyed_def strict_sorted_iff)

lemma objects_keyed_insert:
  assumes "objects_keyed m" and "obj_id v = k"
  shows "objects_keyed (qmap_insert k v m)"
proof -
  have "\<forall>p\<in>set (qmap_insert k v m). obj_id (snd p) = fst p"
  proof
    fix p assume "p \<in> set (qmap_insert k v m)"
    with set_qmap_insert_subset [of k v m] have "p = (k, v) \<or> p \<in> set m" by auto
    with assms show "obj_id (snd p) = fst p" by (auto simp: objects_keyed_def)
  qed
  with assms(1) sorted_qmap_insert [of m k v] show ?thesis by (simp add: objects_keyed_def)
qed

lemma objects_keyed_remove: "objects_keyed m \<Longrightarrow> objects_keyed (qmap_remove m k)"
proof -
  assume a: "objects_keyed m"
  have "map fst (qmap_remove m k) = filter (\<lambda>x. x \<noteq> k) (map fst m)"
    by (simp add: qmap_remove_def filter_map comp_def)
  with a sorted_wrt_filter [of "(<)" "map fst m" "\<lambda>x. x \<noteq> k"]
  show ?thesis by (simp add: objects_keyed_def qmap_remove_def)
qed

lemma objects_keyed_find:
  assumes "objects_keyed m" and "qmap_find m k = Some obj"
  shows "(k, obj) \<in> set m \<and> obj_id obj = k"
proof -
  from assms(2) have "(k, obj) \<in> set m" unfolding qmap_find_def by (rule map_of_SomeD)
  with assms(1) show ?thesis by (auto simp: objects_keyed_def)
qed

text \<open>
  A property of descriptor matrices that holds of every signature of the library and of
  the one put under a key holds of every signature afterwards.
\<close>

lemma qmap_insert_pointwise:
  assumes "\<forall>p\<in>set m. P (snd p)" and "P v"
  shows "\<forall>p\<in>set (qmap_insert k v m). P (snd p)"
proof
  fix p assume "p \<in> set (qmap_insert k v m)"
  with set_qmap_insert_subset [of k v m] have "p = (k, v) \<or> p \<in> set m" by auto
  with assms show "P (snd p)" by auto
qed

text \<open>
  The join loops of \<open>updateObjects\<close>: the library stays keyed by its ids, no key comes
  or goes, and a property that holds of what every worker extracted holds of the
  descriptors of every signature that a worker was started for.
\<close>

lemma setData_threads_inv:
  assumes "objects_keyed objs"
    and "\<forall>p\<in>set objs. fst p \<in> S \<longrightarrow> P (obj_descriptors (snd p))"
    and "\<forall>t\<in>set ts. P (snd (snd t))"
    and "setData_threads ts objs = Inr objs'"
  shows "objects_keyed objs' \<and> fst ` set objs' = fst ` set objs
       \<and> (\<forall>p\<in>set objs'. fst p \<in> S \<union> fst ` set ts \<longrightarrow> P (obj_descriptors (snd p)))"
  using assms
proof (induction ts arbitrary: objs S)
  case Nil
  then show ?case by simp
next
  case (Cons t ts)
  from Cons.prems(4) obtain obj where f: "qmap_find objs (fst t) = Some obj"
    by (cases "qmap_find objs (fst t)") simp_all
  let ?new = "ObjSignature_setData (snd t) obj"
  let ?objs1 = "qmap_insert (fst t) ?new objs"
  from Cons.prems(4) f have run: "setData_threads ts ?objs1 = Inr objs'" by simp
  from objects_keyed_find [OF Cons.prems(1) f]
  have mem: "(fst t, obj) \<in> set objs" and idt: "obj_id obj = fst t" by simp_all
  have idn: "obj_id ?new = fst t" using idt by (simp add: ObjSignature_setData_def)
  have k1: "objects_keyed ?objs1" by (rule objects_keyed_insert [OF Cons.prems(1) idn])
  have keys1: "fst ` set ?objs1 = fst ` set objs"
  proof -
    from mem have "fst (fst t, obj) \<in> fst ` set objs" by (rule imageI)
    then have "fst t \<in> fst ` set objs" by simp
    then show ?thesis unfolding keys_qmap_insert by (rule insert_absorb)
  qed
  have P1: "\<forall>p\<in>set ?objs1. fst p \<in> insert (fst t) S \<longrightarrow> P (obj_descriptors (snd p))"
  proof (intro ballI impI)
    fix p assume p: "p \<in> set ?objs1" and s: "fst p \<in> insert (fst t) S"
    show "P (obj_descriptors (snd p))"
    proof (cases "fst p = fst t")
      case True
      from True have "(fst t, snd p) = p" by (simp add: prod_eq_iff)
      with p have "(fst t, snd p) \<in> set ?objs1" by simp
      from eq_key_imp_eq_value [OF objects_keyed_distinct [OF k1] this qmap_insert_mem]
      have "snd p = ?new" .
      moreover from Cons.prems(3) have "P (snd (snd t))" by simp
      ultimately show ?thesis by (simp add: ObjSignature_setData_def)
    next
      case False
      with s have inS: "fst p \<in> S" by simp
      from p set_qmap_insert_subset [of "fst t" ?new objs]
      have "p = (fst t, ?new) \<or> p \<in> set objs" by auto
      with False have "p \<in> set objs" by auto
      with Cons.prems(2) inS show ?thesis by simp
    qed
  qed
  from Cons.prems(3) have P3: "\<forall>t\<in>set ts. P (snd (snd t))" by simp
  from Cons.IH [OF k1 P1 P3 run]
  have r1: "objects_keyed objs'" and r2: "fst ` set objs' = fst ` set ?objs1"
    and r3: "\<forall>p\<in>set objs'. fst p \<in> insert (fst t) S \<union> fst ` set ts \<longrightarrow>
               P (obj_descriptors (snd p))"
    by simp_all
  have eq: "S \<union> fst ` set (t # ts) = insert (fst t) S \<union> fst ` set ts" by simp
  from r3 have "\<forall>p\<in>set objs'. fst p \<in> S \<union> fst ` set (t # ts) \<longrightarrow>
               P (obj_descriptors (snd p))"
    unfolding eq .
  with r1 r2 keys1 show ?case by simp
qed

declare extract_batches.simps [simp del]

lemma extract_batches_inv:
  assumes "0 < n" and "objects_keyed objs"
    and "\<forall>p\<in>set objs. fst p \<in> S \<longrightarrow> P (obj_descriptors (snd p))"
    and "\<forall>t\<in>set ts. P (snd (snd t))"
    and "extract_batches n ts objs = Inr objs'"
  shows "objects_keyed objs' \<and> fst ` set objs' = fst ` set objs
       \<and> (\<forall>p\<in>set objs'. fst p \<in> S \<union> fst ` set ts \<longrightarrow> P (obj_descriptors (snd p)))"
  using assms
proof (induction n ts objs arbitrary: S rule: extract_batches.induct)
  case (1 n ts objs)
  show ?case
  proof (cases "ts = []")
    case True
    with "1.prems"(5) have "objs' = objs" by (simp add: extract_batches.simps)
    with True "1.prems" show ?thesis by simp
  next
    case False
    with "1.prems"(1) have go: "\<not> (ts = [] \<or> n = 0)" by simp
    from "1.prems"(5) go obtain objs1 where
      b: "setData_threads (take n ts) objs = Inr objs1"
      and rest: "extract_batches n (drop n ts) objs1 = Inr objs'"
      by (subst (asm) extract_batches.simps)
         (cases "setData_threads (take n ts) objs", simp_all)
    from "1.prems"(4) have Pt: "\<forall>t\<in>set (take n ts). P (snd (snd t))"
      using in_set_takeD by fast
    from "1.prems"(4) have Pd: "\<forall>t\<in>set (drop n ts). P (snd (snd t))"
      using in_set_dropD by fast
    from setData_threads_inv [OF "1.prems"(2) "1.prems"(3) Pt b]
    have k1: "objects_keyed objs1" and keys1: "fst ` set objs1 = fst ` set objs"
      and P1: "\<forall>p\<in>set objs1. fst p \<in> S \<union> fst ` set (take n ts) \<longrightarrow>
                 P (obj_descriptors (snd p))"
      by simp_all
    from "1.IH" [OF go b "1.prems"(1) k1 P1 Pd rest]
    have r1: "objects_keyed objs'" and r2: "fst ` set objs' = fst ` set objs1"
      and r3: "\<forall>p\<in>set objs'. fst p \<in> S \<union> fst ` set (take n ts) \<union> fst ` set (drop n ts) \<longrightarrow>
                 P (obj_descriptors (snd p))"
      by simp_all
    have "set (take n ts) \<union> set (drop n ts) = set ts"
      using set_append [of "take n ts" "drop n ts"] by simp
    then have "fst ` set (take n ts) \<union> fst ` set (drop n ts) = fst ` set ts"
      using image_Un [of fst "set (take n ts)" "set (drop n ts)"] by simp
    then have eq: "S \<union> fst ` set (take n ts) \<union> fst ` set (drop n ts) = S \<union> fst ` set ts"
      by (simp add: Un_assoc)
    from r3 have "\<forall>p\<in>set objs'. fst p \<in> S \<union> fst ` set ts \<longrightarrow> P (obj_descriptors (snd p))"
      unfolding eq .
    with r1 r2 keys1 show ?thesis by simp
  qed
qed

text \<open>
  What a worker extracted is \<^verbatim>\<open>cv::Mat()\<close> or a matrix the extractor computed; with one
  extractor, no two of these differ in width or type.
\<close>

lemma ExtractFeaturesThread_run_descriptors:
  "snd (ExtractFeaturesThread_run px cfg img) = Mat_new
   \<or> (\<exists>i kps. snd (ExtractFeaturesThread_run px cfg img) = snd (extractor_compute px i kps))"
  by (auto simp: ExtractFeaturesThread_run_def Let_def)

lemma updateObjects_consistent:
  assumes "extractor_uniform px" and "objects_keyed (objects st)"
    and "updateObjects px images st = Inr st'"
  shows "objects_keyed (objects st') \<and> descriptors_consistent (qmap_values (objects st'))"
proof (cases "objects st = []")
  case True
  with assms(3) have "st' = st" by (simp add: updateObjects_def)
  with True show ?thesis by (simp add: objects_keyed_def descriptors_consistent_def qmap_values_def)
next
  case False
  let ?P = "\<lambda>d. d = Mat_new \<or> (\<exists>i kps. d = snd (extractor_compute px i kps))"
  let ?n = "if General_threads (settings st) = 0 then int (length (objects st))
            else General_threads (settings st)"
  let ?ts = "map (\<lambda>obj. (obj_id obj,
                ExtractFeaturesThread_run px (settings st) (images (obj_id obj))))
               (qmap_values (objects st))"
  from assms(3) False have pos: "\<not> ?n \<le> 0"
    by (auto simp: updateObjects_def Let_def split: if_splits)
  with assms(3) False obtain objs where
    b: "extract_batches (nat ?n) ?ts (objects st) = Inr objs"
    and st': "st' = st\<lparr>objects := objs\<rparr>"
    by (cases "extract_batches (nat ?n) ?ts (objects st)")
       (auto simp: updateObjects_def Let_def split: if_splits)
  from pos have n: "0 < nat ?n" by simp
  have P0: "\<forall>p\<in>set (objects st). fst p \<in> {} \<longrightarrow> ?P (obj_descriptors (snd p))" by simp
  have Pt: "\<forall>t\<in>set ?ts. ?P (snd (snd t))"
    using ExtractFeaturesThread_run_descriptors [of px "settings st"] by auto
  from extract_batches_inv [of "nat ?n" "objects st" "{}" ?P ?ts objs, OF n assms(2) P0 Pt b]
  have k: "objects_keyed objs" and keys: "fst ` set objs = fst ` set (objects st)"
    and P: "\<forall>p\<in>set objs. fst p \<in> {} \<union> fst ` set ?ts \<longrightarrow> ?P (obj_descriptors (snd p))"
    by simp_all
  have ids: "fst ` set ?ts = fst ` set (objects st)"
  proof -
    have "map fst ?ts = map (\<lambda>p. obj_id (snd p)) (objects st)"
      by (simp add: qmap_values_def comp_def)
    also have "\<dots> = map fst (objects st)"
      using assms(2) by (simp add: objects_keyed_def)
    finally have "set (map fst ?ts) = set (map fst (objects st))" by simp
    then show ?thesis by (simp only: set_map)
  qed
  have all: "\<forall>p\<in>set objs. ?P (obj_descriptors (snd p))"
  proof
    fix p assume p: "p \<in> set objs"
    then have "fst p \<in> fst ` set objs" by (rule imageI)
    with keys ids have m: "fst p \<in> {} \<union> fst ` set ?ts" by simp
    from bspec [OF P p] m show "?P (obj_descriptors (snd p))" by (rule mp)
  qed
  have agree: "mat_cols d = mat_cols e \<and> mat_type d = mat_type e"
    if d: "?P d" and e: "?P e" and nd: "\<not> Mat_empty d" and ne: "\<not> Mat_empty e" for d e
  proof -
    from d nd obtain i kps where d': "d = snd (extractor_compute px i kps)"
      by (auto simp: Mat_empty_def Mat_new_def)
    from e ne obtain j kps' where e': "e = snd (extractor_compute px j kps')"
      by (auto simp: Mat_empty_def Mat_new_def)
    from assms(1) [unfolded extractor_uniform_def, rule_format, of i kps j kps'] nd ne
    show ?thesis unfolding d' e' by simp
  qed
  have "descriptors_consistent (qmap_values objs)"
    unfolding descriptors_consistent_def
  proof (intro ballI)
    fix a b assume "a \<in> set (qmap_values objs)" and "b \<in> set (qmap_values objs)"
    then obtain p q where "p \<in> set objs" "a = snd p" "q \<in> set objs" "b = snd q"
      by (auto simp: qmap_values_def)
    with all have Pa: "?P (obj_descriptors a)" and Pb: "?P (obj_descriptors b)" by simp_all
    show "\<not> descriptors_mismatch a b"
    proof
      assume m: "descriptors_mismatch a b"
      then have na: "\<not> Mat_empty (obj_descriptors a)" and nb: "\<not> Mat_empty (obj_descriptors b)"
        by (simp_all add: descriptors_mismatch_def)
      from agree [OF Pa Pb na nb] m show False by (simp add: descriptors_mismatch_def)
    qed
  qed
  with k st' show ?thesis by simp
qed

text \<open>
  \<open>updateVocabulary\<close> changes the signatures of the library through \<^verbatim>\<open>setWords\<close> only:
  the library stays keyed by its ids, and what holds of the descriptors of every
  signature before the call holds of them after it.
\<close>

lemma addWords_objects_objects:
  assumes "objects_keyed (fst acc)"
    and "\<forall>p\<in>set (fst acc). P (obj_descriptors (snd p))"
    and "\<forall>x\<in>set objs. P (obj_descriptors x)"
    and "addWords_objects nn cfg objs added acc = Inr r"
  shows "objects_keyed (fst (snd r)) \<and> (\<forall>p\<in>set (fst (snd r)). P (obj_descriptors (snd p)))"
  using assms
proof (induction objs arbitrary: added acc)
  case Nil
  then show ?case by auto
next
  case (Cons x objs)
  from Cons.prems(4) obtain w where
    aw: "Vocabulary_addWords nn cfg (snd acc) (obj_descriptors x) (obj_id x)
           (General_vocabularyIncremental cfg) = Inr w"
    by (cases "Vocabulary_addWords nn cfg (snd acc) (obj_descriptors x) (obj_id x)
                 (General_vocabularyIncremental cfg)") simp_all
  let ?objs' = "qmap_insert (obj_id x) (x\<lparr>obj_words := fst w\<rparr>) (fst acc)"
  let ?added = "added + int (length (uniqueKeys (fst w)))"
  have k: "objects_keyed ?objs'"
    by (rule objects_keyed_insert [OF Cons.prems(1)]) simp
  from Cons.prems(3) have Px: "P (obj_descriptors (x\<lparr>obj_words := fst w\<rparr>))"
    and Ps: "\<forall>y\<in>set objs. P (obj_descriptors y)"
    by simp_all
  from qmap_insert_pointwise [of "fst acc" "\<lambda>obj. P (obj_descriptors obj)", OF Cons.prems(2) Px]
  have P': "\<forall>p\<in>set ?objs'. P (obj_descriptors (snd p))" .
  show ?case
  proof (cases "General_vocabularyIncremental cfg \<and> ?added \<noteq> 0
                \<and> ?added \<ge> General_vocabularyUpdateMinWords cfg")
    case True
    with Cons.prems(4) aw obtain v' where
      run: "addWords_objects nn cfg objs 0 (?objs', v') = Inr r"
      by (cases "Vocabulary_update (snd w)") (simp_all add: Let_def)
    from Cons.IH [of "(?objs', v')" 0] k P' Ps run show ?thesis by simp
  next
    case False
    with Cons.prems(4) aw have
      run: "addWords_objects nn cfg objs ?added (?objs', snd w) = Inr r"
      by (simp add: Let_def)
    from Cons.IH [of "(?objs', snd w)" ?added] k P' Ps run show ?thesis by simp
  qed
qed

lemma updateVocabulary_objects:
  assumes "objects_keyed (objects st)"
    and "\<forall>p\<in>set (objects st). P (obj_descriptors (snd p))"
    and "updateVocabulary nn st = Inr st'"
  shows "objects_keyed (objects st') \<and> (\<forall>p\<in>set (objects st'). P (obj_descriptors (snd p)))"
proof -
  let ?st = "clearVocabulary st"
  let ?ol = "qmap_values (objects st)"
  have o: "objects ?st = objects st" "settings ?st = settings st"
    by (simp_all add: clearVocabulary_def)
  have same: "objects st' = objects st \<Longrightarrow> ?thesis"
    using assms(1,2) by simp
  show ?thesis
  proof (cases "verify_descriptors ?ol (0, - 1, - 1)")
    case None
    with assms(3) have "st' = ?st" by (simp add: updateVocabulary_def Let_def o)
    with o same show ?thesis by simp
  next
    case (Some r)
    show ?thesis
    proof (cases "fst r \<noteq> 0")
      case False
      with Some assms(3) have "st' = ?st" by (simp add: updateVocabulary_def Let_def o)
      with o same show ?thesis by simp
    next
      case count: True
      show ?thesis
      proof (cases "General_invertedSearch (settings st) \<or> General_threads (settings st) = 1")
        case False
        with Some count assms(3) have "objects st' = objects ?st"
          by (auto simp: updateVocabulary_def Let_def o)
        with o same show ?thesis by simp
      next
        case single: True
        from Some count single assms(3) obtain c where
          C: "copy_descriptors ?ol (fst r) 0 ([], []) = Inr c"
          by (cases "copy_descriptors ?ol (fst r) 0 ([], [])")
             (simp_all add: updateVocabulary_def Let_def o)
        let ?st1 = "?st\<lparr>objectsDescriptors :=
                        qmap_insert 0 \<lparr>mat_cols = nat (fst (snd r)), mat_type = nat (snd (snd r)),
                                       mat_data = fst c\<rparr> [],
                      dataRange := snd c\<rparr>"
        have o1: "objects ?st1 = objects st" by (simp add: clearVocabulary_def)
        show ?thesis
        proof (cases "General_invertedSearch (settings st)")
          case False
          with Some count single C assms(3) have "st' = ?st1"
            by (simp add: updateVocabulary_def Let_def o)
          with o1 same show ?thesis by simp
        next
          case inv: True
          from Some count C inv assms(3) obtain a where
            A: "addWords_objects nn (settings st) ?ol 0 (objects ?st1, vocabulary ?st1) = Inr a"
            by (cases "addWords_objects nn (settings st) ?ol 0 (objects ?st1, vocabulary ?st1)")
               (simp_all add: updateVocabulary_def Let_def o)
          from Some count C inv A assms(3) have "objects st' = fst (snd a)"
            by (cases "if fst a \<noteq> 0 then Vocabulary_update (snd (snd a)) else Inr (snd (snd a))")
               (auto simp: updateVocabulary_def Let_def o)
          moreover have "\<forall>x\<in>set ?ol. P (obj_descriptors x)"
            using assms(2) by (simp add: qmap_values_def)
          moreover note addWords_objects_objects
            [of "(objects ?st1, vocabulary ?st1)" P ?ol nn "settings st" 0 a]
          ultimately show ?thesis using assms(1,2) A o1 by simp
        qed
      qed
    qed
  qed
qed

text \<open>
  \<open>detect\<close> leaves the library as it is and, while no descriptors are stored, the
  whole state.
\<close>

lemma detect_match_state:
  assumes "detect_match nn px st info = Inr r"
  shows "\<exists>v. snd r = st\<lparr>vocabulary := v\<rparr>"
proof -
  from assms obtain i where
    I: "detect_index nn (settings st) (vocabulary st) (sceneDescriptors info) = Inr i"
    by (cases "detect_index nn (settings st) (vocabulary st) (sceneDescriptors info)")
       (simp_all add: detect_match_def Let_def)
  with assms have "snd r = st\<lparr>vocabulary := snd i\<rparr>"
    by (auto simp: detect_match_def Let_def split: sum.splits)
  then show ?thesis ..
qed

lemma detect_keeps_library:
  assumes "detect nn px st img = Inr r"
  shows "objects (snd (snd r)) = objects st
       \<and> (objectsDescriptors st = [] \<longrightarrow> snd (snd r) = st)"
proof (cases "image_empty px img")
  case True
  with assms show ?thesis by (auto simp: detect_def)
next
  case False
  let ?kps0 = "detector_detect px img"
  let ?ext = "if length ?kps0 \<noteq> 0
              then extractor_compute px img
                     (if Feature2D_3MaxFeatures (settings st) > 0
                         \<and> int (length ?kps0) > Feature2D_3MaxFeatures (settings st)
                      then limitKeypoints ?kps0 (Feature2D_3MaxFeatures (settings st)) else ?kps0)
              else (?kps0, Mat_new)"
  let ?info = "DetectionInfo_new\<lparr>sceneKeypoints := fst ?ext, sceneDescriptors := snd ?ext\<rparr>"
  from assms False obtain consistent where
    cons: "consistentNNData (settings st) (vocabulary st) = Inr consistent"
    by (cases "consistentNNData (settings st) (vocabulary st)")
       (simp_all add: detect_def Let_def)
  show ?thesis
  proof (cases "objectsDescriptors st \<noteq> [] \<and> length (fst ?ext) \<noteq> 0 \<and> consistent
                   \<and> mat_cols (snd (hd (objectsDescriptors st))) = mat_cols (snd ?ext)
                   \<and> mat_type (snd (hd (objectsDescriptors st))) = mat_type (snd ?ext)")
    case True
    with assms False cons obtain m where
      M: "detect_match nn px st ?info = Inr m" and r: "snd (snd r) = snd m"
      by (cases "detect_match nn px st ?info") (auto simp: detect_def Let_def)
    from detect_match_state [OF M] r True show ?thesis by auto
  next
    case no: False
    have "snd (snd r) = st"
    proof -
      have "detect nn px st img
          = (if objectsDescriptors st \<noteq> [] \<and> length (fst ?ext) \<noteq> 0 then Inr (False, ?info, st)
             else if length ?kps0 = 0 then Inr (True, ?info, st)
             else Inr (False, ?info, st))"
        unfolding detect_def Let_def if_not_P [OF False] cons sum.case if_not_P [OF no] ..
      with assms show ?thesis by (auto split: if_splits)
    qed
    then show ?thesis by simp
  qed
qed

text \<open>
  Every call keeps the invariant: a call that changes the descriptors of the library
  clears the three stores (\<open>addObject\<close>, \<open>removeObject\<close>, \<open>removeAllObjects\<close>) or
  extracts them all with one extractor (\<open>updateObjects\<close>); the other calls leave the
  descriptors as they are.
\<close>

lemma library_inv_clearVocabulary:
  "objects_keyed (objects st) \<Longrightarrow> library_inv (clearVocabulary st)"
  using library_cleared_clearVocabulary [of st]
  by (simp add: library_inv_def clearVocabulary_def)

lemma library_inv_addObject:
  assumes "library_inv st"
  shows "library_inv (snd (addObject st obj))"
proof (cases "obj_id obj \<noteq> 0 \<and> qmap_contains (objects st) (obj_id obj)")
  case True
  then have "addObject st obj = (False, st)" by (simp add: addObject_def)
  with assms show ?thesis by simp
next
  case False
  let ?obj' = "if obj_id obj = 0 then obj\<lparr>obj_id := General_nextObjID (settings st)\<rparr> else obj"
  let ?st2 = "st\<lparr>settings := (settings st)\<lparr>General_nextObjID := obj_id ?obj' + 1\<rparr>,
                 objects := qmap_insert (obj_id ?obj') ?obj' (objects st)\<rparr>"
  have run: "snd (addObject st obj) = clearVocabulary ?st2"
    unfolding addObject_def if_not_P [OF False] by (simp add: Let_def)
  from assms have "objects_keyed (objects st)" by (simp add: library_inv_def)
  then have "objects_keyed (qmap_insert (obj_id ?obj') ?obj' (objects st))"
    by (rule objects_keyed_insert) (rule refl)
  then have "objects_keyed (objects ?st2)" by simp
  then show ?thesis unfolding run by (rule library_inv_clearVocabulary)
qed

lemma library_inv_removeObject:
  assumes "library_inv st"
  shows "library_inv (removeObject st ident)"
proof (cases "qmap_contains (objects st) ident")
  case False
  with assms show ?thesis by (simp add: removeObject_def)
next
  case True
  from assms have "objects_keyed (objects st)" by (simp add: library_inv_def)
  then have "objects_keyed (qmap_remove (objects st) ident)" by (rule objects_keyed_remove)
  then have "objects_keyed (objects (st\<lparr>objects := qmap_remove (objects st) ident\<rparr>))" by simp
  then have "library_inv (clearVocabulary (st\<lparr>objects := qmap_remove (objects st) ident\<rparr>))"
    by (rule library_inv_clearVocabulary)
  with True show ?thesis by (simp add: removeObject_def)
qed

lemma library_inv_removeAllObjects: "library_inv (removeAllObjects st)"
proof -
  have "objects_keyed (objects (st\<lparr>objects := []\<rparr>))" by (simp add: objects_keyed_def)
  then show ?thesis unfolding removeAllObjects_def by (rule library_inv_clearVocabulary)
qed

lemma library_inv_updateVocabulary:
  assumes "library_inv st" and "updateVocabulary nn st = Inr st'"
  shows "library_inv st'"
proof -
  from assms(1) have k: "objects_keyed (objects st)" by (simp add: library_inv_def)
  let ?P = "\<lambda>d. \<exists>q\<in>set (objects st). obj_descriptors (snd q) = d"
  have P0: "\<forall>p\<in>set (objects st). ?P (obj_descriptors (snd p))" by auto
  from updateVocabulary_objects [of st ?P nn st', OF k P0 assms(2)]
  have k': "objects_keyed (objects st')"
    and P': "\<forall>p\<in>set (objects st'). ?P (obj_descriptors (snd p))"
    by simp_all
  show ?thesis
  proof (cases "descriptors_consistent (qmap_values (objects st))")
    case True
    have "descriptors_consistent (qmap_values (objects st'))"
      unfolding descriptors_consistent_def
    proof (intro ballI)
      fix a b assume "a \<in> set (qmap_values (objects st'))" and "b \<in> set (qmap_values (objects st'))"
      then obtain p q where p: "p \<in> set (objects st')" "a = snd p"
        and q: "q \<in> set (objects st')" "b = snd q"
        by (auto simp: qmap_values_def)
      from bspec [OF P' p(1)] obtain p0 where
        p0: "p0 \<in> set (objects st)" "obj_descriptors (snd p0) = obj_descriptors a"
        unfolding p(2) by auto
      from bspec [OF P' q(1)] obtain q0 where
        q0: "q0 \<in> set (objects st)" "obj_descriptors (snd q0) = obj_descriptors b"
        unfolding q(2) by auto
      from p0(1) q0(1) have "snd p0 \<in> set (qmap_values (objects st))"
        and "snd q0 \<in> set (qmap_values (objects st))"
        by (simp_all add: qmap_values_def)
      with True have "\<not> descriptors_mismatch (snd p0) (snd q0)"
        by (simp add: descriptors_consistent_def)
      with p0(2) q0(2) show "\<not> descriptors_mismatch a b"
        by (simp add: descriptors_mismatch_def)
    qed
    with k' show ?thesis by (simp add: library_inv_def)
  next
    case False
    then obtain a b where "a \<in> set (qmap_values (objects st))"
      and "b \<in> set (qmap_values (objects st))" and "descriptors_mismatch a b"
      by (auto simp: descriptors_consistent_def)
    from updateVocabulary_mismatch_returns [OF this, of nn] assms(2)
    have "st' = clearVocabulary st" by simp
    with library_inv_clearVocabulary [OF k] show ?thesis by simp
  qed
qed

lemma library_inv_detect:
  assumes "library_inv st" and "detect nn px st img = Inr r"
  shows "library_inv (snd (snd r))"
proof (cases "library_cleared st")
  case True
  then have "objectsDescriptors st = []" by (simp add: library_cleared_def)
  with detect_keeps_library [OF assms(2)] have "snd (snd r) = st" by simp
  with assms(1) show ?thesis by simp
next
  case False
  from detect_keeps_library [OF assms(2)] have "objects (snd (snd r)) = objects st" by simp
  with assms(1) False show ?thesis by (simp add: library_inv_def)
qed

lemma library_inv_call:
  assumes "library_inv st" and "call_uniform c" and "FindObject_call c st = Inr st'"
  shows "library_inv st'"
proof (cases c)
  case (Call_addObject obj)
  with assms(3) library_inv_addObject [OF assms(1), of obj] show ?thesis by simp
next
  case (Call_removeObject ident)
  with assms(3) library_inv_removeObject [OF assms(1), of ident] show ?thesis by simp
next
  case Call_removeAllObjects
  with assms(3) library_inv_removeAllObjects [of st] show ?thesis by simp
next
  case (Call_updateObjects px images)
  with assms(2) have u: "extractor_uniform px" by simp
  from assms(1) have k: "objects_keyed (objects st)" by (simp add: library_inv_def)
  from Call_updateObjects assms(3) have "updateObjects px images st = Inr st'" by simp
  from updateObjects_consistent [OF u k this] show ?thesis by (simp add: library_inv_def)
next
  case (Call_updateVocabulary nn)
  with assms(3) have "updateVocabulary nn st = Inr st'" by simp
  with assms(1) show ?thesis by (rule library_inv_updateVocabulary)
next
  case (Call_detect nn px img)
  with assms(3) obtain r where "detect nn px st img = Inr r" and "st' = snd (snd r)"
    by (cases "detect nn px st img") simp_all
  with library_inv_detect [OF assms(1)] show ?thesis by simp
next
  case (Call_settings cfg)
  with assms(3) have "st' = st\<lparr>settings := cfg\<rparr>" by simp
  with assms(1) show ?thesis by (simp add: library_inv_def library_cleared_def)
qed

lemma library_inv_calls:
  assumes "library_inv st" and "list_all call_uniform calls"
    and "FindObject_calls calls st = Inr st'"
  shows "library_inv st'"
  using assms
proof (induction calls arbitrary: st)
  case Nil
  then show ?case by simp
next
  case (Cons c calls)
  from Cons.prems(3) obtain st1 where
    one: "FindObject_call c st = Inr st1" and rest: "FindObject_calls calls st1 = Inr st'"
    by (cases "FindObject_call c st") simp_all
  from Cons.prems(2) have u: "call_uniform c" and us: "list_all call_uniform calls" by simp_all
  from library_inv_call [OF Cons.prems(1) u one] have "library_inv st1" .
  from Cons.IH [OF this us rest] show ?case .
qed

lemma library_inv_new: "library_inv (FindObject_new cfg)"
  by (simp add: library_inv_def FindObject_new_def objects_keyed_def descriptors_consistent_def
      qmap_values_def)

text \<open>
  C3. In every state that a client reaches from a fresh \<^verbatim>\<open>FindObject\<close> by calls of
  \<open>addObject\<close>, \<open>removeObject\<close>, \<open>removeAllObjects\<close>, \<open>updateObjects\<close>,
  \<open>updateVocabulary\<close> and \<open>detect\<close> that return, and by changes of the settings
  (every \<open>updateObjects\<close> with an extractor of one width and type): when two non-empty
  descriptor matrices of the library differ in column count or element type,
  \<open>updateVocabulary\<close> returns and the state after the call is the state before it; so
  are the vocabulary, the global descriptor store and the range map. The three are
  empty then, because the call that brought the mismatch in cleared them.
\<close>

theorem updateVocabulary_mismatch_noop:
  assumes "FindObject_calls calls (FindObject_new cfg) = Inr st"
    and "list_all call_uniform calls"
    and "a \<in> set (qmap_values (objects st))" and "b \<in> set (qmap_values (objects st))"
    and "descriptors_mismatch a b"
  shows "updateVocabulary nn st = Inr st \<and> library_cleared st"
proof -
  from library_inv_calls [OF library_inv_new assms(2) assms(1)] have inv: "library_inv st" .
  from assms(3-5) have "\<not> descriptors_consistent (qmap_values (objects st))"
    by (auto simp: descriptors_consistent_def)
  with inv have cleared: "library_cleared st" by (simp add: library_inv_def)
  from updateVocabulary_mismatch_returns [OF assms(3-5), of nn] clearVocabulary_cleared [OF cleared]
  have "updateVocabulary nn st = Inr st" by simp
  with cleared show ?thesis by simp
qed

theorem updateVocabulary_mismatch_noop_witness:
  "FindObject_calls calls_58 (FindObject_new cfg_inverted) = Inr library_58
   \<and> list_all call_uniform calls_58
   \<and> map obj_id (qmap_values (objects library_58)) = [5, 8]
   \<and> descriptors_mismatch (qmap_values (objects library_58) ! 0)
        (qmap_values (objects library_58) ! 1)
   \<and> updateVocabulary nn0 library_58 = Inr library_58
   \<and> library_cleared library_58"
proof -
  have e: "(case FindObject_calls calls_58 (FindObject_new cfg_inverted) of
              Inr s \<Rightarrow> True | Inl e \<Rightarrow> False)"
    by code_simp
  have run: "FindObject_calls calls_58 (FindObject_new cfg_inverted) = Inr library_58"
  proof (cases "FindObject_calls calls_58 (FindObject_new cfg_inverted)")
    case (Inl x)
    with e show ?thesis by simp
  next
    case (Inr s)
    then show ?thesis by (simp add: library_58_def)
  qed
  have u: "list_all call_uniform calls_58"
    by (simp add: calls_58_def extractor_uniform_def px0_def)
  have ids: "map obj_id (qmap_values (objects library_58)) = [5, 8]" by code_simp
  have len: "length (qmap_values (objects library_58)) = 2"
    using arg_cong [OF ids, of length] by simp
  have a: "qmap_values (objects library_58) ! 0 \<in> set (qmap_values (objects library_58))"
    and b: "qmap_values (objects library_58) ! 1 \<in> set (qmap_values (objects library_58))"
    using len by simp_all
  have m: "descriptors_mismatch (qmap_values (objects library_58) ! 0)
             (qmap_values (objects library_58) ! 1)"
    by code_simp
  from updateVocabulary_mismatch_noop [OF run u a b m, of nn0] run u ids m
  show ?thesis by simp
qed

subsection \<open>\<^verbatim>\<open>updateVocabulary\<close>: the non-incremental inverted vocabulary\<close>

lemma Mat_ok_empty_rows: "Mat_ok m \<Longrightarrow> Mat_empty m \<Longrightarrow> Mat_rows m = 0"
  by (auto simp: Mat_ok_def Mat_empty_def Mat_rows_def)

lemma verify_descriptors_count:
  "verify_descriptors objs acc = Some r \<Longrightarrow> \<forall>x\<in>set objs. Mat_ok (obj_descriptors x) \<Longrightarrow>
   fst r = fst acc + (\<Sum>x\<leftarrow>objs. Mat_rows (obj_descriptors x))"
proof (induction objs arbitrary: acc)
  case Nil
  then show ?case by simp
next
  case (Cons x objs)
  from Cons.prems(2) have okx: "Mat_ok (obj_descriptors x)"
    and oks: "\<forall>y\<in>set objs. Mat_ok (obj_descriptors y)" by simp_all
  show ?case
  proof (cases "Mat_empty (obj_descriptors x)")
    case True
    with Cons.prems(1) have "verify_descriptors objs acc = Some r" by (simp add: Let_def)
    from Cons.IH [OF this oks] Mat_ok_empty_rows [OF okx True] show ?thesis by simp
  next
    case False
    let ?acc = "(fst acc + Mat_rows (obj_descriptors x),
                 int (mat_cols (obj_descriptors x)), int (mat_type (obj_descriptors x)))"
    have "verify_descriptors objs ?acc = Some r"
    proof (cases "verify_descriptors (x # objs) acc = verify_descriptors objs ?acc")
      case True
      with Cons.prems(1) show ?thesis by simp
    next
      case ne: False
      with False have "verify_descriptors (x # objs) acc = None"
        by (auto simp: Let_def split: if_splits)
      with Cons.prems(1) show ?thesis by simp
    qed
    from Cons.IH [OF this oks] show ?thesis by simp
  qed
qed

lemma sum_rows_nonneg: "0 \<le> (\<Sum>x\<leftarrow>objs. Mat_rows (obj_descriptors x))"
  by (induction objs) (simp_all add: Mat_rows_def)

lemma copy_descriptors_total:
  "row + (\<Sum>x\<leftarrow>objs. Mat_rows (obj_descriptors x)) \<le> count \<Longrightarrow>
   \<exists>c. copy_descriptors objs count row acc = Inr c"
proof (induction objs arbitrary: row acc)
  case Nil
  then show ?case by simp
next
  case (Cons x objs)
  show ?case
  proof (cases "Mat_rows (obj_descriptors x) \<noteq> 0")
    case True
    from Cons.prems sum_rows_nonneg [of objs]
    have fits: "\<not> row + Mat_rows (obj_descriptors x) > count" by simp
    from Cons.prems
    have "row + Mat_rows (obj_descriptors x) + (\<Sum>y\<leftarrow>objs. Mat_rows (obj_descriptors y)) \<le> count"
      by simp
    from Cons.IH [OF this] True fits show ?thesis by (simp add: Let_def)
  next
    case False
    with Cons.prems have "row + (\<Sum>y\<leftarrow>objs. Mat_rows (obj_descriptors y)) \<le> count" by simp
    from Cons.IH [OF this] False show ?thesis by (simp add: Let_def)
  qed
qed

lemma uniqueKeys_fresh:
  "length (uniqueKeys (map (\<lambda>i. (b + int i, int i)) [0..<n])) = n"
proof -
  have "inj_on (\<lambda>i. b + int i) (set [0..<n])" by (rule inj_onI) simp
  then have d: "distinct (map (\<lambda>i. b + int i) [0..<n])" by (simp add: distinct_map)
  have "uniqueKeys (map (\<lambda>i. (b + int i, int i)) [0..<n])
      = remdups (map (\<lambda>i. b + int i) [0..<n])"
    by (simp add: uniqueKeys_def comp_def)
  also have "\<dots> = map (\<lambda>i. b + int i) [0..<n]"
    using d by (rule distinct_remdups_id)
  finally show ?thesis by simp
qed

lemma addWords_bulk_total:
  assumes "staging_takes v d"
  shows "\<exists>r. Vocabulary_addWords nn cfg v d oid False = Inr r"
proof (cases "Mat_empty d")
  case True
  then show ?thesis by (simp add: Vocabulary_addWords_def)
next
  case False
  from assms have "mat_data d = [] \<or> Mat_empty (notIndexedDescriptors v)
      \<or> (mat_cols (notIndexedDescriptors v) = mat_cols d
         \<and> mat_type (notIndexedDescriptors v) = mat_type d)"
    by (simp add: staging_takes_def)
  then obtain s where "Mat_push_back (notIndexedDescriptors v) d = Inr s"
    using Mat_push_back_fits by blast
  with False show ?thesis by (simp add: Vocabulary_addWords_def Let_def)
qed

lemma addWords_objects_bulk:
  assumes ninc: "\<not> General_vocabularyIncremental cfg"
  shows "staging_inv v \<Longrightarrow> \<forall>x\<in>set os. Mat_ok (obj_descriptors x) \<Longrightarrow>
     \<forall>a\<in>set os. \<forall>b\<in>set os. \<not> descriptors_mismatch a b \<Longrightarrow>
     \<forall>x\<in>set os. \<not> Mat_empty (obj_descriptors x) \<longrightarrow> staging_takes v (obj_descriptors x) \<Longrightarrow>
     \<exists>m' v'. addWords_objects nn cfg os added (m, v)
                = Inr (added + (\<Sum>x\<leftarrow>os. Mat_rows (obj_descriptors x)), m', v')
        \<and> staging_inv v' \<and> indexedDescriptors v' = indexedDescriptors v
        \<and> Vocabulary_size v' = Vocabulary_size v + (\<Sum>x\<leftarrow>os. Mat_rows (obj_descriptors x))"
proof (induction os arbitrary: added m v)
  case Nil
  then show ?case by simp
next
  case (Cons x os)
  let ?d = "obj_descriptors x"
  from Cons.prems(2) have okx: "Mat_ok ?d" and oks: "\<forall>y\<in>set os. Mat_ok (obj_descriptors y)"
    by simp_all
  from Cons.prems(3) have agree: "\<forall>a\<in>set os. \<forall>b\<in>set os. \<not> descriptors_mismatch a b"
    by simp
  show ?case
  proof (cases "Mat_empty ?d")
    case True
    have run: "Vocabulary_addWords nn cfg v ?d (obj_id x) (General_vocabularyIncremental cfg)
        = Inr ([], v)"
      using True by (simp add: Vocabulary_addWords_def)
    let ?m1 = "qmap_insert (obj_id x) (x\<lparr>obj_words := []\<rparr>) m"
    have step: "addWords_objects nn cfg (x # os) added (m, v)
        = addWords_objects nn cfg os added (?m1, v)"
      using run ninc by (simp add: Let_def uniqueKeys_def)
    from Cons.prems(4)
    have takes: "\<forall>y\<in>set os. \<not> Mat_empty (obj_descriptors y) \<longrightarrow> staging_takes v (obj_descriptors y)"
      by simp
    from Cons.IH [OF Cons.prems(1) oks agree takes, of added ?m1]
    obtain m' v' where r: "addWords_objects nn cfg os added (?m1, v)
                = Inr (added + (\<Sum>y\<leftarrow>os. Mat_rows (obj_descriptors y)), m', v')"
      and f: "staging_inv v'" "indexedDescriptors v' = indexedDescriptors v"
        "Vocabulary_size v' = Vocabulary_size v + (\<Sum>y\<leftarrow>os. Mat_rows (obj_descriptors y))"
      by auto
    from Mat_ok_empty_rows [OF okx True] have z: "Mat_rows ?d = 0" .
    show ?thesis unfolding step using r f z by simp
  next
    case False
    with Cons.prems(4) have tk: "staging_takes v ?d" by simp
    from ninc addWords_bulk_total [OF tk, of nn cfg "obj_id x"]
    obtain r where run: "Vocabulary_addWords nn cfg v ?d (obj_id x) False = Inr r" by auto
    obtain w v1 where r: "r = (w, v1)" by (cases r)
    note b = staging_inv_addWords_bulk [OF Cons.prems(1) False run [unfolded r]]
    from b have inv1: "staging_inv v1"
      and w: "w = map (\<lambda>i. (Vocabulary_size v + int i, int i)) [0..<length (mat_data ?d)]"
      and idx1: "indexedDescriptors v1 = indexedDescriptors v"
      and sz1: "Vocabulary_size v1 = Vocabulary_size v + Mat_rows ?d"
      and c1: "mat_cols (notIndexedDescriptors v1) = mat_cols ?d"
      and t1: "mat_type (notIndexedDescriptors v1) = mat_type ?d"
      by simp_all
    have len: "int (length (uniqueKeys w)) = Mat_rows ?d"
      unfolding w by (simp add: uniqueKeys_fresh Mat_rows_def)
    let ?m1 = "qmap_insert (obj_id x) (x\<lparr>obj_words := w\<rparr>) m"
    have step: "addWords_objects nn cfg (x # os) added (m, v)
        = addWords_objects nn cfg os (added + Mat_rows ?d) (?m1, v1)"
      using run r ninc len by (simp add: Let_def)
    have takes: "\<forall>y\<in>set os. \<not> Mat_empty (obj_descriptors y) \<longrightarrow> staging_takes v1 (obj_descriptors y)"
    proof (intro ballI impI)
      fix y assume y: "y \<in> set os" and ney: "\<not> Mat_empty (obj_descriptors y)"
      from Cons.prems(3) y have "\<not> descriptors_mismatch x y" by simp
      with False ney have "mat_cols ?d = mat_cols (obj_descriptors y)"
        and "mat_type ?d = mat_type (obj_descriptors y)"
        by (simp_all add: descriptors_mismatch_def)
      with c1 t1 show "staging_takes v1 (obj_descriptors y)" by (simp add: staging_takes_def)
    qed
    from Cons.IH [OF inv1 oks agree takes, of "added + Mat_rows ?d" ?m1]
    obtain m' v' where r': "addWords_objects nn cfg os (added + Mat_rows ?d) (?m1, v1)
                = Inr (added + Mat_rows ?d + (\<Sum>y\<leftarrow>os. Mat_rows (obj_descriptors y)), m', v')"
      and f: "staging_inv v'" "indexedDescriptors v' = indexedDescriptors v1"
        "Vocabulary_size v' = Vocabulary_size v1 + (\<Sum>y\<leftarrow>os. Mat_rows (obj_descriptors y))"
      by auto
    show ?thesis unfolding step using r' f idx1 sz1 by (simp add: add.assoc)
  qed
qed

lemma updateVocabulary_inverted_bulk_run:
  assumes inv: "General_invertedSearch (settings st)"
    and ninc: "\<not> General_vocabularyIncremental (settings st)"
    and ok: "\<forall>x\<in>set (qmap_values (objects st)). Mat_ok (obj_descriptors x)"
    and agree: "\<forall>a\<in>set (qmap_values (objects st)). \<forall>b\<in>set (qmap_values (objects st)).
                  \<not> descriptors_mismatch a b"
  shows "\<exists>st'. updateVocabulary nn st = Inr st'
       \<and> Vocabulary_size (vocabulary st')
           = (\<Sum>x\<leftarrow>qmap_values (objects st). Mat_rows (obj_descriptors x))
       \<and> Mat_rows (indexedDescriptors (vocabulary st'))
           = (\<Sum>x\<leftarrow>qmap_values (objects st). Mat_rows (obj_descriptors x))
       \<and> notIndexedWordIds (vocabulary st') = []
       \<and> staging_inv (vocabulary st')"
proof -
  let ?objs = "qmap_values (objects st)"
  let ?S = "\<Sum>x\<leftarrow>?objs. Mat_rows (obj_descriptors x)"
  let ?vc = "Vocabulary_clear (vocabulary st)"
  from agree verify_descriptors_start [of ?objs 0]
  obtain r where V: "verify_descriptors ?objs (0, - 1, - 1) = Some r" by auto
  from verify_descriptors_count [OF V ok] have count: "fst r = ?S" by simp
  have invc: "staging_inv ?vc" by (rule staging_inv_clear)
  have sizec: "Vocabulary_size ?vc = 0" "Mat_rows (indexedDescriptors ?vc) = 0"
    "notIndexedWordIds ?vc = []" "indexedDescriptors ?vc = Mat_new"
    by (simp_all add: Vocabulary_clear_def Vocabulary_size_def Mat_rows_def Mat_new_def)
  show ?thesis
  proof (cases "?S = 0")
    case True
    have "updateVocabulary nn st = Inr (clearVocabulary st)"
      using V count True by (simp add: updateVocabulary_def Let_def clearVocabulary_def)
    moreover have "vocabulary (clearVocabulary st) = ?vc" by (simp add: clearVocabulary_def)
    ultimately show ?thesis using True invc sizec by simp
  next
    case False
    have "0 + ?S \<le> fst r" using count by simp
    from copy_descriptors_total [OF this, of "([], [])"]
    obtain c where C: "copy_descriptors ?objs (fst r) 0 ([], []) = Inr c" by auto
    have takes: "\<forall>x\<in>set ?objs. \<not> Mat_empty (obj_descriptors x) \<longrightarrow>
        staging_takes ?vc (obj_descriptors x)"
      by (simp add: staging_takes_def Vocabulary_clear_def Mat_empty_def Mat_new_def)
    from addWords_objects_bulk [OF ninc invc ok agree takes, of nn 0 "objects st"]
    obtain m' v' where L: "addWords_objects nn (settings st) ?objs 0 (objects st, ?vc)
        = Inr (?S, m', v')"
      and inv': "staging_inv v'" and idx': "indexedDescriptors v' = indexedDescriptors ?vc"
      and sz': "Vocabulary_size v' = Vocabulary_size ?vc + ?S"
      by auto
    from idx' sizec have "Mat_empty (indexedDescriptors v')" by (simp add: Mat_empty_def Mat_new_def)
    then have "Mat_empty (indexedDescriptors v') \<or> Mat_empty (notIndexedDescriptors v')
           \<or> (mat_cols (indexedDescriptors v') = mat_cols (notIndexedDescriptors v')
              \<and> mat_type (indexedDescriptors v') = mat_type (notIndexedDescriptors v'))"
      by (rule disjI1)
    from Vocabulary_update_total [OF this] obtain v2 where U: "Vocabulary_update v' = Inr v2" ..
    note u = staging_inv_update [OF inv' U]
    let ?st1 = "(clearVocabulary st)\<lparr>objectsDescriptors :=
                   qmap_insert 0 \<lparr>mat_cols = nat (fst (snd r)), mat_type = nat (snd (snd r)),
                                  mat_data = fst c\<rparr> [],
                 dataRange := snd c\<rparr>"
    have "updateVocabulary nn st = Inr (?st1\<lparr>objects := m', vocabulary := v2\<rparr>)"
      using V count False C L U inv
      by (simp add: updateVocabulary_def Let_def clearVocabulary_def)
    then show ?thesis using u sz' sizec by simp
  qed
qed

text \<open>
  C7. For a library whose descriptor matrices have columns when they have rows and
  whose non-empty matrices agree in width and type, \<open>updateVocabulary\<close> under inverted,
  non-incremental search returns, and then the vocabulary size and the row count of the
  indexed block equal the sum of the descriptor row counts over all objects, with
  nothing left in the staging id list. A non-incremental \<open>addWords\<close> of a non-empty
  matrix \<open>d\<close> on a vocabulary that satisfies the staging invariant hands back the word-ids
  \<open>size, size + 1, ...\<close>, one per row in row order, appends them to the staging ids, grows
  the staging block by the rows of \<open>d\<close>, leaves the indexed block alone, and is the
  same for every search and every settings (no matching takes part).
\<close>

theorem updateVocabulary_inverted_bulk:
  "(General_invertedSearch (settings st) \<and> \<not> General_vocabularyIncremental (settings st)
     \<and> (\<forall>x\<in>set (qmap_values (objects st)). Mat_ok (obj_descriptors x))
     \<and> (\<forall>a\<in>set (qmap_values (objects st)). \<forall>b\<in>set (qmap_values (objects st)).
           \<not> descriptors_mismatch a b) \<longrightarrow>
     (\<exists>st'. updateVocabulary nn st = Inr st'
        \<and> Vocabulary_size (vocabulary st')
            = (\<Sum>x\<leftarrow>qmap_values (objects st). Mat_rows (obj_descriptors x))
        \<and> Mat_rows (indexedDescriptors (vocabulary st'))
            = (\<Sum>x\<leftarrow>qmap_values (objects st). Mat_rows (obj_descriptors x))
        \<and> notIndexedWordIds (vocabulary st') = []))
   \<and> (staging_inv v \<and> \<not> Mat_empty d
        \<and> Vocabulary_addWords nn cfg v d oid False = Inr (w, v') \<longrightarrow>
        w = map (\<lambda>i. (Vocabulary_size v + int i, int i)) [0..<length (mat_data d)]
        \<and> notIndexedWordIds v'
            = notIndexedWordIds v @ map (\<lambda>i. Vocabulary_size v + int i) [0..<length (mat_data d)]
        \<and> Mat_rows (notIndexedDescriptors v') = Mat_rows (notIndexedDescriptors v) + Mat_rows d
        \<and> Vocabulary_size v' = Vocabulary_size v + Mat_rows d
        \<and> indexedDescriptors v' = indexedDescriptors v
        \<and> Vocabulary_addWords nn' cfg' v d oid False = Inr (w, v'))"
proof (intro conjI impI)
  assume h: "General_invertedSearch (settings st) \<and> \<not> General_vocabularyIncremental (settings st)
     \<and> (\<forall>x\<in>set (qmap_values (objects st)). Mat_ok (obj_descriptors x))
     \<and> (\<forall>a\<in>set (qmap_values (objects st)). \<forall>b\<in>set (qmap_values (objects st)).
           \<not> descriptors_mismatch a b)"
  then have a: "General_invertedSearch (settings st)"
    and b: "\<not> General_vocabularyIncremental (settings st)"
    and c: "\<forall>x\<in>set (qmap_values (objects st)). Mat_ok (obj_descriptors x)"
    and d: "\<forall>a\<in>set (qmap_values (objects st)). \<forall>b\<in>set (qmap_values (objects st)).
           \<not> descriptors_mismatch a b"
    by simp_all
  from updateVocabulary_inverted_bulk_run [OF a b c d, of nn]
  obtain st' where "updateVocabulary nn st = Inr st'"
    "Vocabulary_size (vocabulary st')
            = (\<Sum>x\<leftarrow>qmap_values (objects st). Mat_rows (obj_descriptors x))"
    "Mat_rows (indexedDescriptors (vocabulary st'))
            = (\<Sum>x\<leftarrow>qmap_values (objects st). Mat_rows (obj_descriptors x))"
    "notIndexedWordIds (vocabulary st') = []"
    by auto
  then show "\<exists>st'. updateVocabulary nn st = Inr st'
        \<and> Vocabulary_size (vocabulary st')
            = (\<Sum>x\<leftarrow>qmap_values (objects st). Mat_rows (obj_descriptors x))
        \<and> Mat_rows (indexedDescriptors (vocabulary st'))
            = (\<Sum>x\<leftarrow>qmap_values (objects st). Mat_rows (obj_descriptors x))
        \<and> notIndexedWordIds (vocabulary st') = []"
    by (intro exI [of _ st'] conjI)
next
  assume h: "staging_inv v \<and> \<not> Mat_empty d
        \<and> Vocabulary_addWords nn cfg v d oid False = Inr (w, v')"
  then have a: "staging_inv v" and b: "\<not> Mat_empty d"
    and c: "Vocabulary_addWords nn cfg v d oid False = Inr (w, v')" by simp_all
  note r = staging_inv_addWords_bulk [OF a b c]
  from r show "w = map (\<lambda>i. (Vocabulary_size v + int i, int i)) [0..<length (mat_data d)]"
    by simp
  from r show "notIndexedWordIds v'
            = notIndexedWordIds v @ map (\<lambda>i. Vocabulary_size v + int i) [0..<length (mat_data d)]"
    by simp
  from r show "Mat_rows (notIndexedDescriptors v') = Mat_rows (notIndexedDescriptors v) + Mat_rows d"
    by simp
  from r show "Vocabulary_size v' = Vocabulary_size v + Mat_rows d" by simp
  from r show "indexedDescriptors v' = indexedDescriptors v" by simp
  have "Vocabulary_addWords nn' cfg' v d oid False = Vocabulary_addWords nn cfg v d oid False"
    by (simp add: Vocabulary_addWords_def)
  with c show "Vocabulary_addWords nn' cfg' v d oid False = Inr (w, v')" by simp
qed

theorem updateVocabulary_inverted_bulk_witness:
  "General_invertedSearch (settings library_57_added)
   \<and> \<not> General_vocabularyIncremental (settings library_57_added)
   \<and> qmap_values (objects library_57_added) = [obj5, obj7]
   \<and> Mat_ok (obj_descriptors obj5) \<and> Mat_ok (obj_descriptors obj7)
   \<and> \<not> descriptors_mismatch obj5 obj7
   \<and> updateVocabulary nn0 library_57_added = Inr library_57
   \<and> Vocabulary_size (vocabulary library_57) = 2
   \<and> Mat_rows (indexedDescriptors (vocabulary library_57)) = 2
   \<and> staging_inv (Vocabulary_clear (Vocabulary_new :: nat Vocabulary))
   \<and> \<not> Mat_empty (desc_rows [1, 2])
   \<and> Vocabulary_addWords nn0 cfg0 (Vocabulary_clear Vocabulary_new) (desc_rows [1, 2]) 5 False
       = Inr ([(0, 0), (1, 1)], vocab_bulk)
   \<and> notIndexedWordIds vocab_bulk = [0, 1]"
proof -
  let ?v = "Vocabulary_clear (Vocabulary_new :: nat Vocabulary)"
  have a: "General_invertedSearch (settings library_57_added)" by code_simp
  have b: "\<not> General_vocabularyIncremental (settings library_57_added)" by code_simp
  have vals: "qmap_values (objects library_57_added) = [obj5, obj7]" by code_simp
  have ok5: "Mat_ok (obj_descriptors obj5)" and ok7: "Mat_ok (obj_descriptors obj7)"
    by (simp_all add: Mat_ok_def obj5_def obj7_def desc_rows_def)
  have mm: "\<not> descriptors_mismatch obj5 obj7" "\<not> descriptors_mismatch obj7 obj5"
    "\<not> descriptors_mismatch obj5 obj5" "\<not> descriptors_mismatch obj7 obj7"
    by (simp_all add: descriptors_mismatch_def obj5_def obj7_def desc_rows_def)
  have c: "\<forall>x\<in>set (qmap_values (objects library_57_added)). Mat_ok (obj_descriptors x)"
    unfolding vals using ok5 ok7 by simp
  have d: "\<forall>a\<in>set (qmap_values (objects library_57_added)).
           \<forall>b\<in>set (qmap_values (objects library_57_added)). \<not> descriptors_mismatch a b"
    unfolding vals using mm by simp
  have sum: "(\<Sum>x\<leftarrow>qmap_values (objects library_57_added). Mat_rows (obj_descriptors x)) = 2"
    unfolding vals by (simp add: obj5_def obj7_def desc_rows_def Mat_rows_def)
  note t = updateVocabulary_inverted_bulk
  note t1 = t [of library_57_added nn0 ?v "desc_rows [1, 2]" cfg0 5 "[(0, 0), (1, 1)]"
      vocab_bulk nn0 cfg0, THEN conjunct1]
  from a b c d have "General_invertedSearch (settings library_57_added)
     \<and> \<not> General_vocabularyIncremental (settings library_57_added)
     \<and> (\<forall>x\<in>set (qmap_values (objects library_57_added)). Mat_ok (obj_descriptors x))
     \<and> (\<forall>a\<in>set (qmap_values (objects library_57_added)).
          \<forall>b\<in>set (qmap_values (objects library_57_added)). \<not> descriptors_mismatch a b)"
    by (intro conjI)
  from t1 [THEN mp, OF this] obtain st' where
    run: "updateVocabulary nn0 library_57_added = Inr st'"
    and sz: "Vocabulary_size (vocabulary st')
            = (\<Sum>x\<leftarrow>qmap_values (objects library_57_added). Mat_rows (obj_descriptors x))"
    and rw: "Mat_rows (indexedDescriptors (vocabulary st'))
            = (\<Sum>x\<leftarrow>qmap_values (objects library_57_added). Mat_rows (obj_descriptors x))"
    by auto
  from run have st': "st' = library_57" by (simp add: library_57_def)
  have inv: "staging_inv ?v" by (rule staging_inv_clear)
  have ne: "\<not> Mat_empty (desc_rows [1, 2])" by (simp add: Mat_empty_def desc_rows_def)
  have e: "(case Vocabulary_addWords nn0 cfg0 ?v (desc_rows [1, 2]) 5 False of
              Inr r \<Rightarrow> fst r = [(0, 0), (1, 1)] | Inl e \<Rightarrow> False)"
    by code_simp
  have add: "Vocabulary_addWords nn0 cfg0 ?v (desc_rows [1, 2]) 5 False
               = Inr ([(0, 0), (1, 1)], vocab_bulk)"
  proof (cases "Vocabulary_addWords nn0 cfg0 ?v (desc_rows [1, 2]) 5 False")
    case (Inl x)
    with e show ?thesis by simp
  next
    case (Inr r)
    with e show ?thesis by (simp add: vocab_bulk_def prod_eq_iff)
  qed
  note t2 = t [of library_57_added nn0 ?v "desc_rows [1, 2]" cfg0 5 "[(0, 0), (1, 1)]"
      vocab_bulk nn0 cfg0, THEN conjunct2]
  from inv ne add have "staging_inv ?v \<and> \<not> Mat_empty (desc_rows [1, 2])
        \<and> Vocabulary_addWords nn0 cfg0 ?v (desc_rows [1, 2]) 5 False
            = Inr ([(0, 0), (1, 1)], vocab_bulk)"
    by (intro conjI)
  from t2 [THEN mp, OF this]
  have "notIndexedWordIds vocab_bulk
      = notIndexedWordIds ?v @ map (\<lambda>i. Vocabulary_size ?v + int i) [0..<length (mat_data (desc_rows [1, 2 :: nat]))]"
    by simp
  then have ids: "notIndexedWordIds vocab_bulk = [0, 1]"
    by (simp add: Vocabulary_clear_def Vocabulary_size_def Mat_rows_def Mat_new_def desc_rows_def
        upt_rec [of 0] upt_rec [of 1])
  from a b vals ok5 ok7 mm(1) run [unfolded st'] sz [unfolded st' sum] rw [unfolded st' sum]
    inv ne add ids
  show ?thesis by (intro conjI)
qed

subsection \<open>Library mutations and the gate of \<^verbatim>\<open>detect\<close>\<close>




subsection \<open>The scene index of \<^verbatim>\<open>detect\<close>\<close>

text \<open>
  With \<^verbatim>\<open>vocabularyIncremental\<close> off, the non-inverted scene index is flushed by
  \<^verbatim>\<open>update()\<close>: the vocabulary that is searched has no staging row and no staging id.
\<close>

lemma detect_index_bulk_flushed:
  assumes ninv: "\<not> General_invertedSearch cfg" and ninc: "\<not> General_vocabularyIncremental cfg"
    and run: "detect_index nn cfg v scene = Inr (w, v')"
  shows "Vocabulary_search_assert v'"
proof -
  let ?v0 = "Vocabulary_clear v"
  have inv0: "staging_inv ?v0" by (rule staging_inv_clear)
  from run ninv ninc obtain r where add: "Vocabulary_addWords nn cfg ?v0 scene (- 1) False = Inr r"
    by (cases "Vocabulary_addWords nn cfg ?v0 scene (- 1) False") (simp_all add: detect_index_def)
  with run ninv ninc have upd: "Vocabulary_update (snd r) = Inr v'"
    by (cases "Vocabulary_update (snd r)") (simp_all add: detect_index_def)
  have inv1: "staging_inv (snd r)"
  proof (cases "Mat_empty scene")
    case True
    with add have "snd r = ?v0" by (auto simp: Vocabulary_addWords_def)
    with inv0 show ?thesis by simp
  next
    case False
    obtain w1 v1 where r: "r = (w1, v1)" by (cases r)
    from staging_inv_addWords_bulk [OF inv0 False add [unfolded r]] r show ?thesis by simp
  qed
  from staging_inv_update [OF inv1 upd]
  have "Mat_rows (notIndexedDescriptors v') = 0" and "notIndexedWordIds v' = []" by simp_all
  then show ?thesis by (simp add: Vocabulary_search_assert_def Mat_empty_def Mat_rows_def)
qed

text \<open>
  C4 at a concrete input: non-inverted search with \<^verbatim>\<open>vocabularyIncremental\<close> on. The
  gate of \<^verbatim>\<open>detect\<close> passes; the scene vocabulary is built by the incremental path and
  \<^verbatim>\<open>update()\<close> is skipped, so the vocabulary handed to \<^verbatim>\<open>search\<close> has two staging
  rows with the word-ids 0 and 1, the condition of the assertion in \<^verbatim>\<open>search\<close> is
  false, the indexed block is empty and the search writes no result.
\<close>

theorem detect_searches_staged_vocabulary:
  "(case detect nn0 px0 (library_5 cfg_incremental) () of
      Inr r \<Rightarrow>
        (fst r,
         Vocabulary_search_assert (vocabulary (snd (snd r))),
         Mat_rows (notIndexedDescriptors (vocabulary (snd (snd r)))),
         notIndexedWordIds (vocabulary (snd (snd r))),
         Mat_rows (indexedDescriptors (vocabulary (snd (snd r)))),
         Vocabulary_search nn0 (vocabulary (snd (snd r))) (desc_rows [200]) 1)
    | Inl e \<Rightarrow> (False, True, 0, [], 0, None))
   = (True, False, 2, [0, 1], 0, None)"
  by code_simp

subsection \<open>The correspondences of a matched row\<close>

lemma length_qmultimap_insert: "length (qmultimap_insert k v m) = Suc (length m)"
  by (induction m) auto

text \<open>
  The single-threaded loop, non-inverted mode: a row whose word occurs once in the scene
  vocabulary adds one pair, (row of the object, scene keypoint), to the multimap of the
  object that owns the row.
\<close>

lemma match_direct_inserts_one:
  assumes "dataRange_lowerBound drange i 0 = Some (oid, f)"
    and "qmultimap_count words wordId = 1" and "qmap_find ms oid = Some mm"
  shows "match_direct drange words wordId i ms
         = Inr (qmap_insert oid
                  (qmultimap_insert (i - f) (qmultimap_value words wordId 0) mm) ms)"
    and "length (qmultimap_insert (i - f) (qmultimap_value words wordId 0) mm) = Suc (length mm)"
  using assms by (simp_all add: match_direct_def length_qmultimap_insert)

text \<open>
  \<^verbatim>\<open>SearchThread::run\<close>: a matched row whose word occurs once in the scene vocabulary
  adds two entries under the row, the scene keypoint and then the word-id.
\<close>

lemma SearchThread_row_inserts_two:
  assumes "row_matched cfg r" and "qmultimap_count sceneWords (fst (r ! 0)) = 1"
  shows "fst (SearchThread_rows cfg sceneWords [r] i (ms, mn, mx))
         = qmultimap_insert i (fst (r ! 0))
             (qmultimap_insert i (qmultimap_value sceneWords (fst (r ! 0)) 0) ms)"
    and "length (fst (SearchThread_rows cfg sceneWords [r] i (ms, mn, mx))) = length ms + 2"
  using assms by (simp_all add: Let_def length_qmultimap_insert)

text \<open>
  C1 at a concrete input. Object 5 has one descriptor row; the scene has two rows, so
  the scene vocabulary holds the words 0 and 1, each once; the search finds word 1 for
  the row of the object, and no matching criterion is enabled. On a single thread
  \<^verbatim>\<open>detect\<close> inserts the one correspondence \<open>(0, 1)\<close> for object 5; with one worker
  per object (\<^verbatim>\<open>threads = 0\<close>) \<^verbatim>\<open>SearchThread::run\<close> inserts two entries under the
  key 0, the scene keypoint index and then the word-id.
\<close>

theorem SearchThread_inserts_two_entries:
  "(case detect nn0 px0 (library_5 (cfg0\<lparr>General_threads := 1\<rparr>)) () of
      Inr r \<Rightarrow> matches (fst (snd r)) | Inl e \<Rightarrow> []) = [(5, [(0, 1)])]
   \<and> (case detect nn0 px0 (library_5 cfg0) () of
      Inr r \<Rightarrow> matches (fst (snd r)) | Inl e \<Rightarrow> []) = [(5, [(0, 1), (0, 1)])]
   \<and> SearchThread_run cfg0 [(0, 0), (1, 1)] [[(1, 1 / 2)]] = ([(0, 1), (0, 1)], 1 / 2, 1 / 2)
   \<and> SearchThread_run cfg0 [(0, 4), (1, 9)] [[(1, 1 / 2)]] = ([(0, 1), (0, 9)], 1 / 2, 1 / 2)"
  by code_simp

subsection \<open>The matched distances\<close>

lemma min_update_least:
  "0 \<le> m \<Longrightarrow> \<forall>d\<in>set ds. 0 \<le> d \<Longrightarrow>
   0 \<le> fold (\<lambda>d m. min_update m d) ds m
   \<and> fold (\<lambda>d m. min_update m d) ds m \<le> m
   \<and> (\<forall>d\<in>set ds. fold (\<lambda>d m. min_update m d) ds m \<le> d)
   \<and> (fold (\<lambda>d m. min_update m d) ds m = m \<or> fold (\<lambda>d m. min_update m d) ds m \<in> set ds)"
proof (induction ds arbitrary: m)
  case Nil
  then show ?case by simp
next
  case (Cons d ds)
  let ?m = "min_update m d"
  from Cons.prems have m': "0 \<le> ?m" "?m \<le> m" "?m \<le> d" "?m = m \<or> ?m = d"
    by (auto simp: min_update_def)
  from Cons.prems have rest: "\<forall>d\<in>set ds. 0 \<le> d" by simp
  note ih = Cons.IH [OF m'(1) rest]
  have f: "fold (\<lambda>d m. min_update m d) (d # ds) m = fold (\<lambda>d m. min_update m d) ds ?m" by simp
  show ?case unfolding f using ih m' by auto
qed

lemma max_update_greatest:
  "0 \<le> m \<Longrightarrow> \<forall>d\<in>set ds. 0 \<le> d \<Longrightarrow>
   m \<le> fold (\<lambda>d m. max_update m d) ds m
   \<and> (\<forall>d\<in>set ds. d \<le> fold (\<lambda>d m. max_update m d) ds m)
   \<and> (fold (\<lambda>d m. max_update m d) ds m = m \<or> fold (\<lambda>d m. max_update m d) ds m \<in> set ds)"
proof (induction ds arbitrary: m)
  case Nil
  then show ?case by simp
next
  case (Cons d ds)
  let ?m = "max_update m d"
  from Cons.prems have m': "0 \<le> ?m" "m \<le> ?m" "d \<le> ?m" "?m = m \<or> ?m = d"
    by (auto simp: max_update_def)
  from Cons.prems have rest: "\<forall>d\<in>set ds. 0 \<le> d" by simp
  note ih = Cons.IH [OF m'(1) rest]
  have f: "fold (\<lambda>d m. max_update m d) (d # ds) m = fold (\<lambda>d m. max_update m d) ds ?m" by simp
  show ?case unfolding f using ih m' by auto
qed

text \<open>From the sentinel, over distances that are not negative: the least and the greatest.\<close>

lemma minmax_from_sentinel:
  assumes "ds \<noteq> []" and "\<forall>d\<in>set ds. 0 \<le> d"
  shows "fold (\<lambda>d m. min_update m d) ds (- 1) = Min (set ds)"
    and "fold (\<lambda>d m. max_update m d) ds (- 1) = Max (set ds)"
proof -
  from assms(1) obtain d ds' where ds: "ds = d # ds'" by (cases ds) auto
  with assms(2) have d0: "0 \<le> d" and rest: "\<forall>x\<in>set ds'. 0 \<le> x" by simp_all
  have mn: "fold (\<lambda>d m. min_update m d) ds (- 1) = fold (\<lambda>d m. min_update m d) ds' d"
    unfolding ds by (simp add: min_update_def)
  have mx: "fold (\<lambda>d m. max_update m d) ds (- 1) = fold (\<lambda>d m. max_update m d) ds' d"
    unfolding ds by (simp add: max_update_def)
  note l = min_update_least [OF d0 rest]
  note g = max_update_greatest [OF d0 rest]
  have "Min (set ds) = fold (\<lambda>d m. min_update m d) ds' d"
  proof (rule Min_eqI)
    show "finite (set ds)" by simp
    show "fold (\<lambda>d m. min_update m d) ds' d \<le> y" if "y \<in> set ds" for y
      using that l unfolding ds by auto
    show "fold (\<lambda>d m. min_update m d) ds' d \<in> set ds"
      using l unfolding ds by auto
  qed
  with mn show "fold (\<lambda>d m. min_update m d) ds (- 1) = Min (set ds)" by simp
  have "Max (set ds) = fold (\<lambda>d m. max_update m d) ds' d"
  proof (rule Max_eqI)
    show "finite (set ds)" by simp
    show "y \<le> fold (\<lambda>d m. max_update m d) ds' d" if "y \<in> set ds" for y
      using that g unfolding ds by auto
    show "fold (\<lambda>d m. max_update m d) ds' d \<in> set ds"
      using g unfolding ds by auto
  qed
  with mx show "fold (\<lambda>d m. max_update m d) ds (- 1) = Max (set ds)" by simp
qed

text \<open>
  Both row loops feed the nearest distance of every row into the two fields, whether
  the row is matched or not.
\<close>

lemma SearchThread_rows_distances:
  "snd (SearchThread_rows cfg sceneWords rs i acc)
   = (fold (\<lambda>d m. min_update m d) (map (\<lambda>r. snd (r ! 0)) rs) (fst (snd acc)),
      fold (\<lambda>d m. max_update m d) (map (\<lambda>r. snd (r ! 0)) rs) (snd (snd acc)))"
  by (induction rs arbitrary: i acc) (simp_all add: Let_def)

lemma match_rows_distances:
  "match_rows st v words rs i acc = Inr a \<Longrightarrow>
   snd a = (fold (\<lambda>d m. min_update m d) (map (\<lambda>r. snd (r ! 0)) rs) (fst (snd acc)),
            fold (\<lambda>d m. max_update m d) (map (\<lambda>r. snd (r ! 0)) rs) (snd (snd acc)))"
proof (induction rs arbitrary: i acc)
  case Nil
  then show ?case by simp
next
  case (Cons r rs)
  let ?step = "if row_matched (settings st) r then
                 (if General_invertedSearch (settings st)
                  then match_inverted (objects st) (wordToObjects v) (fst (r ! 0)) i
                         (qmultimap_values (wordToObjects v) (fst (r ! 0))) (fst acc)
                  else match_direct (dataRange st) words (fst (r ! 0)) i (fst acc))
               else Inr (fst acc)"
  from Cons.prems obtain ms where
    rest: "match_rows st v words rs (i + 1)
             (ms, min_update (fst (snd acc)) (snd (r ! 0)), max_update (snd (snd acc)) (snd (r ! 0)))
           = Inr a"
    by (cases ?step) (simp_all add: Let_def)
  from Cons.IH [OF rest] show ?case by simp
qed

text \<open>
  Within one worker, and in the single-threaded loop: after the loop over at least one
  row, with no negative distance, the two fields are the least and the greatest nearest
  distance over all rows.
\<close>

lemma row_loops_cover_all_rows:
  assumes "rs \<noteq> []" and "\<forall>r\<in>set rs. 0 \<le> snd (r ! 0)"
  shows "snd (SearchThread_run cfg sceneWords rs)
           = (Min ((\<lambda>r. snd (r ! 0)) ` set rs), Max ((\<lambda>r. snd (r ! 0)) ` set rs))"
    and "match_rows st v words rs 0 (ms, - 1, - 1) = Inr a \<Longrightarrow>
         snd a = (Min ((\<lambda>r. snd (r ! 0)) ` set rs), Max ((\<lambda>r. snd (r ! 0)) ` set rs))"
proof -
  let ?ds = "map (\<lambda>r. snd (r ! 0)) rs"
  from assms have ne: "?ds \<noteq> []" and pos: "\<forall>d\<in>set ?ds. 0 \<le> d" by simp_all
  note mm = minmax_from_sentinel [OF ne pos]
  have s: "set ?ds = (\<lambda>r. snd (r ! 0)) ` set rs" by simp
  show "snd (SearchThread_run cfg sceneWords rs)
           = (Min ((\<lambda>r. snd (r ! 0)) ` set rs), Max ((\<lambda>r. snd (r ! 0)) ` set rs))"
    unfolding SearchThread_run_def SearchThread_rows_distances s [symmetric]
    using mm by simp
  show "snd a = (Min ((\<lambda>r. snd (r ! 0)) ` set rs), Max ((\<lambda>r. snd (r ! 0)) ` set rs))"
    if "match_rows st v words rs 0 (ms, - 1, - 1) = Inr a"
    using match_rows_distances [OF that] mm unfolding s [symmetric] by simp
qed

text \<open>
  C10 at a concrete input: non-inverted search with one worker per object, object 5
  with one descriptor row (nearest distance \<open>1/2\<close>) and object 6 without features. The
  worker of object 6 has no row and hands back the sentinel \<open>-1\<close>; the reduction takes
  it for a distance below \<open>1/2\<close>, so \<^verbatim>\<open>minMatchedDistance\<close> ends as \<open>-1\<close> although a
  query row with nearest distance \<open>1/2\<close> was searched. Without object 6 both
  distances are \<open>1/2\<close>.
\<close>

theorem SearchThread_join_loses_minimum:
  "(case detect nn0 px0 (library_56 cfg0) () of
      Inr r \<Rightarrow> (fst r, matches (fst (snd r)),
                 minMatchedDistance (fst (snd r)), maxMatchedDistance (fst (snd r)))
    | Inl e \<Rightarrow> (False, [], 0, 0))
   = (True, [(5, [(0, 1), (0, 1)]), (6, [])], - 1, 1 / 2)
   \<and> (case detect nn0 px0 (library_5 cfg0) () of
      Inr r \<Rightarrow> (minMatchedDistance (fst (snd r)), maxMatchedDistance (fst (snd r)))
    | Inl e \<Rightarrow> (0, 0))
   = (1 / 2, 1 / 2)"
  by code_simp

subsection \<open>Multi-detection\<close>





end
